theory Spec2Isabelle
  imports Main "HOL-Library.Word" "HOL-Library.Multiset"
begin

section \<open>Round information\<close>

text \<open>
  The protobuf message \<open>pb.RoundInfo\<close>, restricted to the fields that
  \<open>waitingRounds.go\<close> and \<open>roundEvents.go\<close> read or write: \<open>ID\<close> (uint64),
  \<open>State\<close> (uint32) and \<open>Timestamps\<close> ([]uint64).  The Go zero value has
  \<open>ID = 0\<close>, \<open>State = 0\<close> and a nil \<open>Timestamps\<close> slice.  The list and the
  registry hold pointers to such messages; the model holds the messages
  themselves, so a round is taken not to be mutated after it was handed over,
  and the pointer is taken to be non-nil.
\<close>

record RoundInfo =
  ID :: "64 word"
  State :: "32 word"
  Timestamps :: "64 word list"

text \<open>
  The enumerations \<open>states.QUEUED\<close>, \<open>states.NUM_STATES\<close> and
  \<open>current.REALTIME\<close> are declared in the external \<open>primitives\<close> module.
  Every function below that uses one takes it as a parameter of the same
  name: \<open>QUEUED\<close> is the value \<open>uint32(states.QUEUED)\<close>, \<open>REALTIME\<close> the
  slice index \<open>current.REALTIME\<close>, \<open>NUM_STATES\<close> the array length
  \<open>states.NUM_STATES\<close>.  The general theorems hold for every value of the
  parameters; the closed examples are evaluated at \<open>QUEUED = 3\<close>,
  \<open>REALTIME = 4\<close> and \<open>NUM_STATES = 7\<close>.
\<close>

section \<open>WaitingRounds\<close>

text \<open>
  \<open>rounds\<close> is the \<open>container/list\<close> list read from \<open>Front()\<close> to \<open>Back()\<close>.
  \<open>c\<close> is the condition variable: the goroutines that are parked inside
  \<open>wr.c.Wait()\<close>, which \<open>Broadcast\<close> releases all at once.  The
  read-write mutex makes the body of each method atomic and has no state
  of its own in the model.
\<close>

record WaitingRounds =
  rounds :: "RoundInfo list"
  c :: "nat list"

definition NewWaitingRounds :: WaitingRounds where
  "NewWaitingRounds = \<lparr>rounds = [], c = []\<rparr>"

definition Len :: "WaitingRounds \<Rightarrow> nat" where
  "Len wr = length (rounds wr)"

text \<open>
  \<open>getTime\<close> indexes the \<open>Timestamps\<close> slice; Go panics with an index out of
  range when the slice is too short, which is \<open>None\<close> here.
\<close>

definition getTime :: "nat \<Rightarrow> RoundInfo \<Rightarrow> 64 word option" where
  "getTime REALTIME round =
     (if REALTIME < length (Timestamps round) then Some (Timestamps round ! REALTIME) else None)"

definition Broadcast :: "WaitingRounds \<Rightarrow> WaitingRounds" where
  "Broadcast wr = wr\<lparr>c := []\<rparr>"

text \<open>
  The loop of \<open>Insert\<close>: \<open>e\<close> runs from \<open>Back()\<close> along \<open>Prev()\<close>.  The second
  list argument holds \<open>e\<close> and the elements before it, nearest first (so it is
  the front part of the list reversed); the third holds the elements behind
  \<open>e\<close>, in list order.  \<open>InsertAfter(newRound, e)\<close> puts the new round between
  the two; when the loop runs off the front, \<open>PushFront\<close> puts it first.
  \<open>getTime(newRound)\<close> is evaluated before \<open>getTime(e.Value)\<close>; either may
  panic.
\<close>

fun insertLoop :: "nat \<Rightarrow> RoundInfo \<Rightarrow> RoundInfo list \<Rightarrow> RoundInfo list \<Rightarrow> RoundInfo list option" where
  "insertLoop REALTIME newRound [] behind = Some (newRound # behind)"
| "insertLoop REALTIME newRound (e # before) behind =
     (case getTime REALTIME newRound of
        None \<Rightarrow> None
      | Some tn \<Rightarrow>
          (case getTime REALTIME e of
             None \<Rightarrow> None
           | Some te \<Rightarrow>
               if tn > te then Some (rev (e # before) @ newRound # behind)
               else insertLoop REALTIME newRound before (e # behind)))"

text \<open>
  The loop of \<open>remove\<close>, with the same reading of the arguments: the first
  element met from the back whose \<open>ID\<close> matches is unlinked, and the loop
  returns.
\<close>

fun removeLoop :: "RoundInfo \<Rightarrow> RoundInfo list \<Rightarrow> RoundInfo list \<Rightarrow> RoundInfo list" where
  "removeLoop newRound [] behind = behind"
| "removeLoop newRound (e # before) behind =
     (if ID e = ID newRound then rev before @ behind
      else removeLoop newRound before (e # behind))"

definition remove :: "RoundInfo \<Rightarrow> WaitingRounds \<Rightarrow> WaitingRounds" where
  "remove newRound wr = wr\<lparr>rounds := removeLoop newRound (rev (rounds wr)) []\<rparr>"

text \<open>
  \<open>Insert\<close>: a queued round is linked in and the change is broadcast (on both
  exits of the queued branch); any other round is removed, without a
  broadcast.  \<open>None\<close> is the panic of \<open>getTime\<close>.
\<close>

definition Insert :: "32 word \<Rightarrow> nat \<Rightarrow> RoundInfo \<Rightarrow> WaitingRounds \<Rightarrow> WaitingRounds option" where
  "Insert QUEUED REALTIME newRound wr =
     (if State newRound = QUEUED then
        (case insertLoop REALTIME newRound (rev (rounds wr)) [] of
           None \<Rightarrow> None
         | Some rs \<Rightarrow> Some (Broadcast (wr\<lparr>rounds := rs\<rparr>)))
      else Some (remove newRound wr))"

text \<open>\<open>getFurthest\<close>: nil on an empty list, else the value at \<open>Back()\<close>.\<close>

definition getFurthest :: "WaitingRounds \<Rightarrow> RoundInfo option" where
  "getFurthest wr = (if Len wr = 0 then None else Some (last (rounds wr)))"

text \<open>\<open>GetSlice\<close> copies the list from \<open>Front()\<close> along \<open>Next()\<close> into a slice.\<close>

definition GetSlice :: "WaitingRounds \<Rightarrow> RoundInfo list" where
  "GetSlice wr = rounds wr"

text \<open>A sequence of \<open>Insert\<close> calls; a panic ends the program.\<close>

fun Inserts :: "32 word \<Rightarrow> nat \<Rightarrow> RoundInfo list \<Rightarrow> WaitingRounds \<Rightarrow> WaitingRounds option" where
  "Inserts QUEUED REALTIME [] wr = Some wr"
| "Inserts QUEUED REALTIME (r # rs) wr =
     (case Insert QUEUED REALTIME r wr of
        None \<Rightarrow> None
      | Some wr' \<Rightarrow> Inserts QUEUED REALTIME rs wr')"

text \<open>
  The order on rounds that the queue keeps: both realtime timestamps can be
  read and the first is not above the second (unsigned comparison).
\<close>

definition rt_le :: "nat \<Rightarrow> RoundInfo \<Rightarrow> RoundInfo \<Rightarrow> bool" where
  "rt_le REALTIME a b =
     (case getTime REALTIME a of
        None \<Rightarrow> False
      | Some ta \<Rightarrow> (case getTime REALTIME b of None \<Rightarrow> False | Some tb \<Rightarrow> ta \<le> tb))"

definition has_realtime :: "nat \<Rightarrow> RoundInfo \<Rightarrow> bool" where
  "has_realtime REALTIME r = (REALTIME < length (Timestamps r))"

section \<open>GetUpcomingRealtime\<close>

text \<open>
  \<open>GetUpcomingRealtime\<close> runs on two goroutines next to the callers of
  \<open>Insert\<close>, so it is modelled as a machine that a scheduler drives one
  atomic step at a time.  The state of one call holds the queue, the place
  the calling goroutine has reached, the place the helper goroutine (the
  \<open>go func()\<close> of the method) has reached, and the contents of the two
  channels.
\<close>

datatype error = timeOutError

text \<open>
  The calling goroutine: about to run \<open>round := wr.getFurthest()\<close>; inside the
  \<open>select\<close> of the loop; or returned with its two results.
\<close>

datatype caller_pc = AtGetFurthest | AtSelect | Returned "RoundInfo option" "error option"

text \<open>
  The helper goroutine: not yet at \<open>wr.c.L.Lock()\<close>; parked inside
  \<open>wr.c.Wait()\<close>; or finished, after \<open>sig <- struct{}{}\<close>.  It is goroutine
  \<open>0\<close> in the wait list \<open>c\<close> of the queue.
\<close>

datatype helper_pc = AtLock | InWait | Sent

record call =
  queue :: WaitingRounds
  caller :: caller_pc
  helper :: helper_pc
  sig :: bool
  timer :: bool

text \<open>
  \<open>sig\<close> and \<open>timer\<close> say whether the channel \<open>sig\<close> (capacity 1) and the
  channel \<open>timer.C\<close> hold a value.  The state right after the method has
  created the timer and the channel and has started the helper:
\<close>

definition GetUpcomingRealtime_start :: "WaitingRounds \<Rightarrow> call" where
  "GetUpcomingRealtime_start q =
     \<lparr>queue = q, caller = AtGetFurthest, helper = AtLock, sig = False, timer = False\<rparr>"

text \<open>
  The atomic steps.  \<open>Insert_call\<close>: some goroutine runs \<open>wr.Insert\<close> (atomic
  under \<open>wr.mux\<close>, the broadcast under \<open>wr.c.L\<close>).  \<open>Timer_fires\<close>: the timeout
  has elapsed and the runtime sends on \<open>timer.C\<close>.  \<open>Helper_runs\<close>: the helper
  goroutine runs up to its next blocking point.  \<open>Caller_getFurthest\<close>: the
  caller runs the check before the loop.  \<open>Select_timer\<close> and \<open>Select_sig\<close>:
  the \<open>select\<close> takes the one or the other case; when both channels hold a
  value Go picks either.
\<close>

datatype step = Insert_call RoundInfo | Timer_fires | Helper_runs
  | Caller_getFurthest | Select_timer | Select_sig

text \<open>
  The helper locks \<open>c.L\<close> and calls \<open>Wait\<close>, which puts it on the wait list and
  parks it; once a \<open>Broadcast\<close> has taken it off the list it sends on \<open>sig\<close>
  (the one send into a channel of capacity 1 cannot block) and ends.
\<close>

definition helper_step :: "call \<Rightarrow> call" where
  "helper_step s =
     (case helper s of
        AtLock \<Rightarrow> s\<lparr>queue := (queue s)\<lparr>c := 0 # c (queue s)\<rparr>, helper := InWait\<rparr>
      | InWait \<Rightarrow> if 0 \<in> set (c (queue s)) then s else s\<lparr>sig := True, helper := Sent\<rparr>
      | Sent \<Rightarrow> s)"

text \<open>Lines 150 to 153: return the furthest round if there is one, else enter the loop.\<close>

definition caller_getFurthest :: "call \<Rightarrow> call" where
  "caller_getFurthest s =
     (case caller s of
        AtGetFurthest \<Rightarrow>
          (case getFurthest (queue s) of
             Some round \<Rightarrow> s\<lparr>caller := Returned (Some round) None\<rparr>
           | None \<Rightarrow> s\<lparr>caller := AtSelect\<rparr>)
      | _ \<Rightarrow> s)"

text \<open>\<open>case <-timer.C: return nil, timeOutError\<close>\<close>

definition select_timer :: "call \<Rightarrow> call" where
  "select_timer s =
     (if caller s = AtSelect \<and> timer s
      then s\<lparr>timer := False, caller := Returned None (Some timeOutError)\<rparr>
      else s)"

text \<open>
  \<open>case <-sig:\<close> look at the queue again; return the furthest round if there
  is one, else go round the loop.
\<close>

definition select_sig :: "call \<Rightarrow> call" where
  "select_sig s =
     (if caller s = AtSelect \<and> sig s
      then (case getFurthest (queue s) of
              Some round \<Rightarrow> s\<lparr>sig := False, caller := Returned (Some round) None\<rparr>
            | None \<Rightarrow> s\<lparr>sig := False\<rparr>)
      else s)"

text \<open>
  One step; a step that is not enabled leaves the state as it is (the
  goroutine stays blocked).  \<open>None\<close> is the panic of \<open>Insert\<close>, which ends the
  program.
\<close>

fun exec :: "32 word \<Rightarrow> nat \<Rightarrow> step \<Rightarrow> call \<Rightarrow> call option" where
  "exec QUEUED REALTIME (Insert_call newRound) s =
     (case Insert QUEUED REALTIME newRound (queue s) of
        None \<Rightarrow> None
      | Some q \<Rightarrow> Some (s\<lparr>queue := q\<rparr>))"
| "exec QUEUED REALTIME Timer_fires s = Some (s\<lparr>timer := True\<rparr>)"
| "exec QUEUED REALTIME Helper_runs s = Some (helper_step s)"
| "exec QUEUED REALTIME Caller_getFurthest s = Some (caller_getFurthest s)"
| "exec QUEUED REALTIME Select_timer s = Some (select_timer s)"
| "exec QUEUED REALTIME Select_sig s = Some (select_sig s)"

fun run :: "32 word \<Rightarrow> nat \<Rightarrow> step list \<Rightarrow> call \<Rightarrow> call option" where
  "run QUEUED REALTIME [] s = Some s"
| "run QUEUED REALTIME (x # xs) s =
     (case exec QUEUED REALTIME x s of
        None \<Rightarrow> None
      | Some s' \<Rightarrow> run QUEUED REALTIME xs s')"

text \<open>A schedule in which no queued round is inserted.\<close>

fun inserts_queued :: "32 word \<Rightarrow> step \<Rightarrow> bool" where
  "inserts_queued QUEUED (Insert_call newRound) = (State newRound = QUEUED)"
| "inserts_queued QUEUED _ = False"

text \<open>The results of a returned call have one of two shapes: a round and no
  error, or no round and the error.\<close>

definition result_shape :: "call \<Rightarrow> bool" where
  "result_shape s =
     (case caller s of
        Returned res err \<Rightarrow> (res = None) = (err = Some timeOutError)
      | _ \<Rightarrow> True)"

section \<open>RoundEvents\<close>

text \<open>
  An \<open>eventCallback\<close> object: the states it was registered for and its
  \<open>signal\<close> channel.  The channel has capacity 1, so its contents are at most
  one round; \<open>None\<close> is the empty channel.  \<open>states.Round\<close> and \<open>id.Round\<close> are
  unsigned integers of the widths of \<open>RoundInfo.State\<close> and \<open>RoundInfo.ID\<close>.
\<close>

record eventCallback =
  states :: "32 word list"
  signal :: "RoundInfo option"

text \<open>
  \<open>callbacks\<close> is the registry of the Go struct: a map from round id to an
  array of \<open>NUM_STATES\<close> buckets.  A bucket is a Go map keyed by the pointer
  to the object, that is a set of pointers; it is a list without repetition
  here, and \<open>range\<close> visits it in list order.  A pointer is a natural number.

  The other fields are the part of the Go heap and scheduler that the
  methods touch: \<open>objects\<close> maps a pointer to its object and \<open>allocated\<close> is
  the next pointer to hand out; \<open>closure_rid e\<close> is the \<open>rid\<close> captured by the
  goroutine that \<open>AddRoundEvent\<close> started for object \<open>e\<close>, and \<open>selecting e\<close>
  says that this goroutine still sits in its \<open>select\<close>; \<open>registering e\<close> says
  that the call of \<open>AddRoundEvent\<close> that made object \<open>e\<close> has started the
  goroutine but has not yet run its part under the lock; \<open>removes\<close> are the
  goroutines started by \<open>go r.Remove(rid, thisEvent)\<close> that have not run yet;
  \<open>invoked\<close> lists the calls of callbacks made so far, oldest first, each as
  the object whose callback it is and the two arguments passed.
\<close>

record RoundEvents =
  callbacks :: "64 word \<Rightarrow> nat list list option"
  objects :: "nat \<Rightarrow> eventCallback"
  allocated :: nat
  closure_rid :: "nat \<Rightarrow> 64 word"
  selecting :: "nat \<Rightarrow> bool"
  registering :: "nat \<Rightarrow> bool"
  removes :: "(64 word \<times> nat) list"
  invoked :: "(nat \<times> RoundInfo \<times> bool) list"

text \<open>
  A method panics (an array index out of range), blocks for good (a send on
  a full channel that nobody reads), or returns.
\<close>

datatype 'a outcome = Panics | Blocks | Returns 'a

text \<open>A registry with an empty, non-nil map and nothing started.\<close>

definition NewRoundEvents :: RoundEvents where
  "NewRoundEvents =
     \<lparr>callbacks = Map.empty, objects = (\<lambda>e. \<lparr>states = [], signal = None\<rparr>), allocated = 0,
      closure_rid = (\<lambda>e. 0), selecting = (\<lambda>e. False), registering = (\<lambda>e. False),
      removes = [], invoked = []\<rparr>"

text \<open>
  The first loop of \<open>remove\<close>: \<open>delete(r.callbacks[rid][s], e)\<close> for each state
  of the object.  Reading a missing round id gives the zero array, whose
  buckets are nil maps, and deleting from a nil map does nothing; the index
  \<open>s\<close> is checked against the array length in either case.
\<close>

fun delete_states ::
  "nat \<Rightarrow> 64 word \<Rightarrow> nat \<Rightarrow> 32 word list \<Rightarrow> (64 word \<Rightarrow> nat list list option) \<Rightarrow>
   (64 word \<Rightarrow> nat list list option) option" where
  "delete_states NUM_STATES rid e [] cb = Some cb"
| "delete_states NUM_STATES rid e (s # ss) cb =
     (if unat s < NUM_STATES
      then delete_states NUM_STATES rid e ss
             (case cb rid of
                None \<Rightarrow> cb
              | Some arr \<Rightarrow> cb(rid \<mapsto> arr[unat s := removeAll e (arr ! unat s)]))
      else None)"

text \<open>
  \<open>remove\<close>: after the deletions, the round id is dropped from the registry
  when every one of its buckets is empty (a missing id reads as the zero
  array, and deleting a missing key does nothing).
\<close>

definition RoundEvents_remove :: "nat \<Rightarrow> 64 word \<Rightarrow> nat \<Rightarrow> RoundEvents \<Rightarrow> RoundEvents outcome" where
  "RoundEvents_remove NUM_STATES rid e r =
     (case delete_states NUM_STATES rid e (states (objects r e)) (callbacks r) of
        None \<Rightarrow> Panics
      | Some cb \<Rightarrow>
          Returns (r\<lparr>callbacks :=
            (case cb rid of
               None \<Rightarrow> cb
             | Some arr \<Rightarrow> if list_all (\<lambda>b. length b = 0) arr then cb(rid := None) else cb)\<rparr>))"

text \<open>\<open>Remove\<close> is \<open>remove\<close> under the lock.\<close>

definition RoundEvents_Remove :: "nat \<Rightarrow> 64 word \<Rightarrow> nat \<Rightarrow> RoundEvents \<Rightarrow> RoundEvents outcome" where
  "RoundEvents_Remove NUM_STATES rid e r = RoundEvents_remove NUM_STATES rid e r"

text \<open>The loop \<open>callbacks[s][thisEvent] = thisEvent\<close> over the valid states.\<close>

fun register_states :: "nat \<Rightarrow> nat \<Rightarrow> 32 word list \<Rightarrow> nat list list \<Rightarrow> nat list list option" where
  "register_states NUM_STATES e [] arr = Some arr"
| "register_states NUM_STATES e (s # ss) arr =
     (if unat s < NUM_STATES
      then register_states NUM_STATES e ss (arr[unat s := List.insert e (arr ! unat s)])
      else None)"

text \<open>
  \<open>AddRoundEvent\<close> makes a new object with an empty channel and starts the
  goroutine that waits on it (\<open>go func()\<close>); only after that it takes the
  lock and registers the object.  Nothing orders the goroutine and the
  registration, so these are two steps, and steps of the goroutine, of the
  \<open>Remove\<close> it starts and of other calls can come between them.

  \<open>AddRoundEvent_start\<close> is the first part, up to and including \<open>go func()\<close>.
  The \<open>callback\<close> argument is identified with the new object in \<open>invoked\<close>; the
  \<open>timeout\<close> argument is the moment at which the step \<open>Timeout_elapsed\<close> of the
  goroutine happens, which may be before the registration.
\<close>

definition AddRoundEvent_start :: "64 word \<Rightarrow> 32 word list \<Rightarrow> RoundEvents \<Rightarrow> RoundEvents" where
  "AddRoundEvent_start rid validStates r =
     (let thisEvent = allocated r
      in r\<lparr>objects := (objects r)(thisEvent := \<lparr>states = validStates, signal = None\<rparr>),
           allocated := Suc thisEvent,
           closure_rid := (closure_rid r)(thisEvent := rid),
           selecting := (selecting r)(thisEvent := True),
           registering := (registering r)(thisEvent := True)\<rparr>)"

text \<open>
  \<open>AddRoundEvent_register\<close> is the second part of the call with the arguments
  \<open>rid\<close> and \<open>validStates\<close> that made \<open>thisEvent\<close>, from \<open>r.mux.Lock()\<close> to
  \<open>r.mux.Unlock()\<close>.  For a round id not yet in the registry the array is
  filled with new empty maps and stored; the maps are shared with the
  registry, so the registrations made afterwards are seen through it.  When
  no such call is waiting to register, the step does nothing.
\<close>

definition AddRoundEvent_register ::
  "nat \<Rightarrow> 64 word \<Rightarrow> 32 word list \<Rightarrow> nat \<Rightarrow> RoundEvents \<Rightarrow> RoundEvents outcome" where
  "AddRoundEvent_register NUM_STATES rid validStates thisEvent r =
     (if registering r thisEvent \<and> closure_rid r thisEvent = rid \<and>
         states (objects r thisEvent) = validStates
      then (case register_states NUM_STATES thisEvent validStates
                   (case callbacks r rid of None \<Rightarrow> replicate NUM_STATES [] | Some arr \<Rightarrow> arr) of
              None \<Rightarrow> Panics
            | Some arr \<Rightarrow>
                Returns (r\<lparr>callbacks := (callbacks r)(rid \<mapsto> arr),
                          registering := (registering r)(thisEvent := False)\<rparr>))
      else Returns r)"

text \<open>
  The first loop of \<open>TriggerRoundEvent\<close>: \<open>event.signal <- ri\<close> for each object
  in the bucket.  A send into a channel that already holds a value blocks.
\<close>

fun send_all :: "RoundInfo \<Rightarrow> nat list \<Rightarrow> (nat \<Rightarrow> eventCallback) \<Rightarrow> (nat \<Rightarrow> eventCallback) option" where
  "send_all ri [] h = Some h"
| "send_all ri (e # es) h =
     (case signal (h e) of
        None \<Rightarrow> send_all ri es (h(e := (h e)\<lparr>signal := Some ri\<rparr>))
      | Some v \<Rightarrow> None)"

text \<open>The second loop: \<open>r.remove(id.Round(ri.ID), event)\<close> for each object signalled.\<close>

fun remove_all :: "nat \<Rightarrow> 64 word \<Rightarrow> nat list \<Rightarrow> RoundEvents \<Rightarrow> RoundEvents outcome" where
  "remove_all NUM_STATES rid [] r = Returns r"
| "remove_all NUM_STATES rid (e # es) r =
     (case RoundEvents_remove NUM_STATES rid e r of
        Returns r' \<Rightarrow> remove_all NUM_STATES rid es r'
      | Panics \<Rightarrow> Panics
      | Blocks \<Rightarrow> Blocks)"

definition TriggerRoundEvent :: "nat \<Rightarrow> RoundInfo \<Rightarrow> RoundEvents \<Rightarrow> RoundEvents outcome" where
  "TriggerRoundEvent NUM_STATES ri r =
     (case callbacks r (ID ri) of
        None \<Rightarrow> Returns r
      | Some arr \<Rightarrow>
          if unat (State ri) < NUM_STATES then
            (let thisStatesCallbacks = arr ! unat (State ri)
             in if length thisStatesCallbacks \<noteq> 0 then
                  (case send_all ri thisStatesCallbacks (objects r) of
                     None \<Rightarrow> Blocks
                   | Some h \<Rightarrow> remove_all NUM_STATES (ID ri) thisStatesCallbacks (r\<lparr>objects := h\<rparr>))
                else Returns r)
          else Panics)"

text \<open>
  The goroutine of \<open>AddRoundEvent\<close>, in its \<open>select\<close>.  \<open>case ri = <-thisEvent.signal\<close>:
  take the round out of the channel and call \<open>callback(ri, false)\<close>.
\<close>

definition Signal_received :: "nat \<Rightarrow> RoundEvents \<Rightarrow> RoundEvents" where
  "Signal_received e r =
     (if selecting r e then
        (case signal (objects r e) of
           None \<Rightarrow> r
         | Some ri \<Rightarrow>
             r\<lparr>objects := (objects r)(e := (objects r e)\<lparr>signal := None\<rparr>),
               selecting := (selecting r)(e := False),
               invoked := invoked r @ [(e, ri, False)]\<rparr>)
      else r)"

text \<open>
  \<open>case <-time.After(timeout)\<close>: start \<open>go r.Remove(rid, thisEvent)\<close> and call
  \<open>callback(ri, true)\<close> with \<open>ri = &pb.RoundInfo{ID: uint64(rid)}\<close>.
\<close>

definition Timeout_elapsed :: "nat \<Rightarrow> RoundEvents \<Rightarrow> RoundEvents" where
  "Timeout_elapsed e r =
     (if selecting r e then
        r\<lparr>selecting := (selecting r)(e := False),
          removes := removes r @ [(closure_rid r e, e)],
          invoked := invoked r @ [(e, \<lparr>ID = closure_rid r e, State = 0, Timestamps = []\<rparr>, True)]\<rparr>
      else r)"

text \<open>One of the started \<open>Remove\<close> goroutines runs.\<close>

definition Remove_runs :: "nat \<Rightarrow> 64 word \<Rightarrow> nat \<Rightarrow> RoundEvents \<Rightarrow> RoundEvents outcome" where
  "Remove_runs NUM_STATES rid e r =
     (if (rid, e) \<in> set (removes r)
      then RoundEvents_Remove NUM_STATES rid e (r\<lparr>removes := remove1 (rid, e) (removes r)\<rparr>)
      else Returns r)"

text \<open>
  The operations on the registry as steps of a schedule: the two parts of a
  call of \<open>AddRoundEvent\<close>, a call of \<open>TriggerRoundEvent\<close>, the two cases of the
  \<open>select\<close> of a goroutine, and the run of a started \<open>Remove\<close>.  The write lock
  makes the registration and \<open>Remove\<close> single steps.  \<open>TriggerRoundEvent\<close>
  holds the read lock only, which keeps those two out while it runs but not
  another \<open>TriggerRoundEvent\<close>; its calls are taken one at a time here, and
  two of them running at once are not covered.
\<close>

datatype operation =
    Start "64 word" "32 word list"
  | Register "64 word" "32 word list" nat
  | Trigger RoundInfo
  | Receive nat
  | Timeout nat
  | Cleanup "64 word" nat

fun perform :: "nat \<Rightarrow> operation \<Rightarrow> RoundEvents \<Rightarrow> RoundEvents outcome" where
  "perform NUM_STATES (Start rid validStates) r = Returns (AddRoundEvent_start rid validStates r)"
| "perform NUM_STATES (Register rid validStates e) r =
     AddRoundEvent_register NUM_STATES rid validStates e r"
| "perform NUM_STATES (Trigger ri) r = TriggerRoundEvent NUM_STATES ri r"
| "perform NUM_STATES (Receive e) r = Returns (Signal_received e r)"
| "perform NUM_STATES (Timeout e) r = Returns (Timeout_elapsed e r)"
| "perform NUM_STATES (Cleanup rid e) r = Remove_runs NUM_STATES rid e r"

fun perform_all :: "nat \<Rightarrow> operation list \<Rightarrow> RoundEvents \<Rightarrow> RoundEvents outcome" where
  "perform_all NUM_STATES [] r = Returns r"
| "perform_all NUM_STATES (x # xs) r =
     (case perform NUM_STATES x r of
        Returns r' \<Rightarrow> perform_all NUM_STATES xs r'
      | Panics \<Rightarrow> Panics
      | Blocks \<Rightarrow> Blocks)"

text \<open>
  What the registry holds for a round id after a schedule of operations on a
  new registry.
\<close>

definition entry_after :: "nat \<Rightarrow> operation list \<Rightarrow> 64 word \<Rightarrow> nat list list option outcome" where
  "entry_after NUM_STATES ops rid =
     (case perform_all NUM_STATES ops NewRoundEvents of
        Returns r \<Rightarrow> Returns (callbacks r rid)
      | Panics \<Rightarrow> Panics
      | Blocks \<Rightarrow> Blocks)"

text \<open>The calls of callbacks made by a schedule of operations on a new registry.\<close>

definition invoked_after :: "nat \<Rightarrow> operation list \<Rightarrow> (nat \<times> RoundInfo \<times> bool) list outcome" where
  "invoked_after NUM_STATES ops =
     (case perform_all NUM_STATES ops NewRoundEvents of
        Returns r \<Rightarrow> Returns (invoked r)
      | Panics \<Rightarrow> Panics
      | Blocks \<Rightarrow> Blocks)"

text \<open>
  The calls of the callback of object \<open>e\<close> made so far, each as the two
  arguments passed, and how many they are.
\<close>

definition calls_of :: "nat \<Rightarrow> RoundEvents \<Rightarrow> (RoundInfo \<times> bool) list" where
  "calls_of e r = map snd (filter (\<lambda>x. fst x = e) (invoked r))"

definition times_invoked :: "nat \<Rightarrow> RoundEvents \<Rightarrow> nat" where
  "times_invoked e r = length (filter (\<lambda>x. fst x = e) (invoked r))"

text \<open>
  The states the registry can be in.  Every array has \<open>NUM_STATES\<close> buckets;
  a bucket lists no object twice; an object in a bucket has been allocated
  and registered, has an empty channel, belongs to the round id of the
  bucket and lists the state of the bucket; the states of an object that
  has been registered are below \<open>NUM_STATES\<close>; callbacks have been called,
  removals started and goroutines left waiting for allocated objects only;
  an object still to be registered has been allocated and has an empty
  channel.  Between the first and the second loop of \<open>TriggerRoundEvent\<close>
  the channels of the objects just signalled hold a value: \<open>S\<close> is the set of
  objects whose channel may be full.
\<close>

definition registry_ok_besides :: "nat set \<Rightarrow> nat \<Rightarrow> RoundEvents \<Rightarrow> bool" where
  "registry_ok_besides S NUM_STATES r =
     ((\<forall>rid arr. callbacks r rid = Some arr \<longrightarrow>
         length arr = NUM_STATES \<and>
         (\<forall>i < NUM_STATES. distinct (arr ! i) \<and> (\<forall>e \<in> set (arr ! i).
            e < allocated r \<and> (e \<notin> S \<longrightarrow> signal (objects r e) = None) \<and>
            closure_rid r e = rid \<and> i \<in> unat ` set (states (objects r e)) \<and>
            \<not> registering r e))) \<and>
      (\<forall>e < allocated r. \<not> registering r e \<longrightarrow>
         (\<forall>s \<in> set (states (objects r e)). unat s < NUM_STATES)) \<and>
      (\<forall>x \<in> set (invoked r). fst x < allocated r) \<and>
      (\<forall>x \<in> set (removes r). snd x < allocated r \<and> closure_rid r (snd x) = fst x) \<and>
      (\<forall>e. selecting r e \<longrightarrow> e < allocated r) \<and>
      (\<forall>e. registering r e \<longrightarrow> e < allocated r \<and> signal (objects r e) = None))"

definition registry_ok :: "nat \<Rightarrow> RoundEvents \<Rightarrow> bool" where
  "registry_ok NUM_STATES r = registry_ok_besides {} NUM_STATES r"


text \<open>Object \<open>e\<close> is in no bucket.\<close>

definition unregistered :: "nat \<Rightarrow> RoundEvents \<Rightarrow> bool" where
  "unregistered e r =
     (\<forall>rid arr. callbacks r rid = Some arr \<longrightarrow> (\<forall>b \<in> set arr. e \<notin> set b))"


section \<open>Properties of the list operations\<close>

lemma getTime_Some_iff: "(\<exists>t. getTime RT r = Some t) = has_realtime RT r"
  by (simp add: getTime_def has_realtime_def)

lemma getTime_None_iff: "(getTime RT r = None) = (\<not> has_realtime RT r)"
  by (simp add: getTime_def has_realtime_def)

lemma rt_le_trans: "rt_le RT a b \<Longrightarrow> rt_le RT b d \<Longrightarrow> rt_le RT a d"
  by (auto simp: rt_le_def split: option.splits)

lemma insertLoop_sorted:
  "insertLoop RT new before behind = Some ys \<Longrightarrow>
   sorted_wrt (rt_le RT) (rev before @ behind) \<Longrightarrow>
   (\<forall>b \<in> set behind. rt_le RT new b) \<Longrightarrow>
   sorted_wrt (rt_le RT) ys"
proof (induction before arbitrary: behind)
  case Nil
  then show ?case by auto
next
  case (Cons e before)
  from Cons.prems(1) obtain tn te where tn: "getTime RT new = Some tn"
    and te: "getTime RT e = Some te"
    by (auto split: option.splits)
  show ?case
  proof (cases "tn > te")
    case True
    with Cons.prems(1) tn te have ys: "ys = rev before @ e # new # behind" by simp
    have e_new: "rt_le RT e new" using True tn te by (simp add: rt_le_def)
    have "\<forall>x \<in> set before. rt_le RT x new"
      using Cons.prems(2) e_new by (auto simp: sorted_wrt_append intro: rt_le_trans)
    with Cons.prems(2,3) e_new show ?thesis
      unfolding ys by (auto simp: sorted_wrt_append)
  next
    case False
    with Cons.prems(1) tn te
    have rec: "insertLoop RT new before (e # behind) = Some ys" by simp
    have "rt_le RT new e" using False tn te by (simp add: rt_le_def)
    with Cons.prems(3) have "\<forall>b \<in> set (e # behind). rt_le RT new b" by simp
    moreover have "sorted_wrt (rt_le RT) (rev before @ e # behind)"
      using Cons.prems(2) by simp
    ultimately show ?thesis using Cons.IH [OF rec] by blast
  qed
qed

lemma removeLoop_absent:
  "\<forall>x \<in> set before. ID x \<noteq> ID new \<Longrightarrow> removeLoop new before behind = rev before @ behind"
  by (induction before arbitrary: behind) auto

lemma removeLoop_present:
  "\<exists>x \<in> set before. ID x = ID new \<Longrightarrow>
   \<exists>ys e zs. rev before = ys @ e # zs \<and> ID e = ID new \<and> (\<forall>z \<in> set zs. ID z \<noteq> ID new) \<and>
     removeLoop new before behind = ys @ zs @ behind"
proof (induction before arbitrary: behind)
  case Nil
  then show ?case by simp
next
  case (Cons e before)
  show ?case
  proof (cases "ID e = ID new")
    case True
    then have "rev (e # before) = rev before @ e # [] \<and> ID e = ID new \<and>
        (\<forall>z \<in> set []. ID z \<noteq> ID new) \<and>
        removeLoop new (e # before) behind = rev before @ [] @ behind"
      by simp
    then show ?thesis by blast
  next
    case False
    with Cons.prems have "\<exists>x \<in> set before. ID x = ID new" by simp
    from Cons.IH [OF this, of "e # behind"] obtain ys e' zs where
      h: "rev before = ys @ e' # zs" "ID e' = ID new" "\<forall>z \<in> set zs. ID z \<noteq> ID new"
         "removeLoop new before (e # behind) = ys @ zs @ e # behind"
      by blast
    from h False have "rev (e # before) = ys @ e' # (zs @ [e]) \<and> ID e' = ID new \<and>
        (\<forall>z \<in> set (zs @ [e]). ID z \<noteq> ID new) \<and>
        removeLoop new (e # before) behind = ys @ (zs @ [e]) @ behind"
      by simp
    then show ?thesis by blast
  qed
qed

lemma remove_absent:
  assumes "\<forall>x \<in> set (rounds wr). ID x \<noteq> ID new"
  shows "remove new wr = wr"
proof -
  from assms have n: "\<forall>x \<in> set (rev (rounds wr)). ID x \<noteq> ID new" by simp
  from removeLoop_absent [OF n, of "[]"] show ?thesis
    by (simp add: remove_def)
qed

lemma remove_present:
  assumes "\<exists>x \<in> set (rounds wr). ID x = ID new"
  shows "\<exists>ys e zs. rounds wr = ys @ e # zs \<and> ID e = ID new \<and>
           (\<forall>z \<in> set zs. ID z \<noteq> ID new) \<and> remove new wr = wr\<lparr>rounds := ys @ zs\<rparr>"
proof -
  from assms have p: "\<exists>x \<in> set (rev (rounds wr)). ID x = ID new" by simp
  from removeLoop_present [OF p, of "[]"] obtain ys e zs where
    h: "rev (rev (rounds wr)) = ys @ e # zs" "ID e = ID new" "\<forall>z \<in> set zs. ID z \<noteq> ID new"
       "removeLoop new (rev (rounds wr)) [] = ys @ zs @ []"
    by blast
  then have "rounds wr = ys @ e # zs \<and> ID e = ID new \<and> (\<forall>z \<in> set zs. ID z \<noteq> ID new) \<and>
      remove new wr = wr\<lparr>rounds := ys @ zs\<rparr>"
    by (simp add: remove_def)
  then show ?thesis by blast
qed

lemma remove_cases:
  "remove new wr = wr
   \<or> (\<exists>ys e zs. rounds wr = ys @ e # zs \<and> remove new wr = wr\<lparr>rounds := ys @ zs\<rparr>)"
proof (cases "\<exists>x \<in> set (rounds wr). ID x = ID new")
  case True
  from remove_present [OF True] show ?thesis by blast
next
  case False
  then have "\<forall>x \<in> set (rounds wr). ID x \<noteq> ID new" by blast
  from remove_absent [OF this] show ?thesis by simp
qed

lemma remove_sorted:
  "sorted_wrt (rt_le RT) (rounds wr) \<Longrightarrow> sorted_wrt (rt_le RT) (rounds (remove new wr))"
  using remove_cases [of new wr] by (auto simp: sorted_wrt_append)

lemma Insert_sorted:
  "Insert Q RT new wr = Some wr' \<Longrightarrow> sorted_wrt (rt_le RT) (rounds wr) \<Longrightarrow>
   sorted_wrt (rt_le RT) (rounds wr')"
proof (cases "State new = Q")
  case True
  assume a: "Insert Q RT new wr = Some wr'" and s: "sorted_wrt (rt_le RT) (rounds wr)"
  from a True obtain rs where rs: "insertLoop RT new (rev (rounds wr)) [] = Some rs"
    and wr': "rounds wr' = rs"
    by (auto simp: Insert_def Broadcast_def split: option.splits)
  from insertLoop_sorted [OF rs] s show ?thesis by (simp add: wr')
next
  case False
  assume a: "Insert Q RT new wr = Some wr'" and s: "sorted_wrt (rt_le RT) (rounds wr)"
  from a False have "wr' = remove new wr" by (simp add: Insert_def)
  with remove_sorted [OF s] show ?thesis by simp
qed

lemma Inserts_sorted_from:
  "Inserts Q RT rs wr = Some wr' \<Longrightarrow> sorted_wrt (rt_le RT) (rounds wr) \<Longrightarrow>
   sorted_wrt (rt_le RT) (rounds wr')"
proof (induction rs arbitrary: wr)
  case Nil
  then show ?case by simp
next
  case (Cons r rs)
  from Cons.prems(1) obtain wr1 where i: "Insert Q RT r wr = Some wr1"
    and r: "Inserts Q RT rs wr1 = Some wr'"
    by (auto split: option.splits)
  from Cons.IH [OF r Insert_sorted [OF i Cons.prems(2)]] show ?case .
qed

lemma insertLoop_set:
  "insertLoop RT new before behind = Some ys \<Longrightarrow> mset ys = add_mset new (mset before + mset behind)"
  by (induction before arbitrary: behind) (auto split: option.splits if_splits)

lemma insertLoop_total:
  "has_realtime RT new \<Longrightarrow> \<forall>x \<in> set before. has_realtime RT x \<Longrightarrow>
   insertLoop RT new before behind \<noteq> None"
  by (induction before arbitrary: behind)
     (auto simp: getTime_None_iff split: option.splits)

lemma Insert_total:
  assumes "has_realtime RT new" "\<forall>x \<in> set (rounds wr). has_realtime RT x"
  shows "\<exists>wr'. Insert Q RT new wr = Some wr' \<and> (\<forall>x \<in> set (rounds wr'). has_realtime RT x)"
proof (cases "State new = Q")
  case True
  from insertLoop_total [OF assms(1), of "rev (rounds wr)" "[]"] assms(2)
  obtain rs where rs: "insertLoop RT new (rev (rounds wr)) [] = Some rs" by auto
  from insertLoop_set [OF rs] have "set rs = insert new (set (rounds wr))"
    by (metis mset_rev set_mset_add_mset_insert set_mset_mset add.right_neutral mset.simps(1))
  with rs True assms show ?thesis
    by (simp add: Insert_def Broadcast_def)
next
  case False
  with remove_cases [of new wr] assms(2) show ?thesis
    by (auto simp: Insert_def)
qed

lemma Inserts_total_from:
  "\<forall>r \<in> set rs. has_realtime RT r \<Longrightarrow> \<forall>x \<in> set (rounds wr). has_realtime RT x \<Longrightarrow>
   Inserts Q RT rs wr \<noteq> None"
proof (induction rs arbitrary: wr)
  case Nil
  then show ?case by simp
next
  case (Cons r rs)
  from Cons.prems have "has_realtime RT r" by simp
  from Insert_total [OF this Cons.prems(2), of Q] obtain wr1 where
    i: "Insert Q RT r wr = Some wr1" and h: "\<forall>x \<in> set (rounds wr1). has_realtime RT x"
    by blast
  from Cons.prems(1) have "\<forall>r \<in> set rs. has_realtime RT r" by simp
  from Cons.IH [OF this h] i show ?case by simp
qed

lemma Insert_queued_mset:
  assumes "Insert Q RT new wr = Some wr'" "State new = Q"
  shows "mset (rounds wr') = add_mset new (mset (rounds wr))"
proof -
  from assms obtain rs where rs: "insertLoop RT new (rev (rounds wr)) [] = Some rs"
    and wr': "rounds wr' = rs"
    by (auto simp: Insert_def Broadcast_def split: option.splits)
  from insertLoop_set [OF rs] show ?thesis by (simp add: wr')
qed

lemma Inserts_queued_mset:
  "Inserts Q RT rs wr = Some wr' \<Longrightarrow> \<forall>r \<in> set rs. State r = Q \<Longrightarrow>
   mset (rounds wr') = mset (rounds wr) + mset rs"
proof (induction rs arbitrary: wr)
  case Nil
  then show ?case by simp
next
  case (Cons r rs)
  from Cons.prems(1) obtain wr1 where
    i: "Insert Q RT r wr = Some wr1" and rest: "Inserts Q RT rs wr1 = Some wr'"
    by (auto split: option.splits)
  from Cons.prems(2) have q: "State r = Q" and qs: "\<forall>r \<in> set rs. State r = Q" by simp_all
  from Cons.IH [OF rest qs] Insert_queued_mset [OF i q] show ?case by simp
qed

text \<open>
  C3.  After any sequence of \<open>Insert\<close> calls on a new queue (queued rounds or
  not), \<open>GetSlice\<close> returns the entries in non-decreasing order of their
  realtime timestamps; the sequence runs to its end, without a panic, when
  every round carries a timestamp for the realtime stage; and when every
  round of the sequence is queued, the entries returned are exactly the
  rounds inserted, each as often as it was inserted.
\<close>

theorem GetSlice_nondecreasing:
  "(Inserts QUEUED REALTIME rs NewWaitingRounds = Some wr \<longrightarrow>
      sorted_wrt (rt_le REALTIME) (GetSlice wr)) \<and>
   ((\<forall>r \<in> set rs. has_realtime REALTIME r) \<longrightarrow>
      Inserts QUEUED REALTIME rs NewWaitingRounds \<noteq> None) \<and>
   ((\<forall>r \<in> set rs. State r = QUEUED) \<and>
    Inserts QUEUED REALTIME rs NewWaitingRounds = Some wr \<longrightarrow>
      mset (GetSlice wr) = mset rs \<and> Len wr = length rs)"
proof (intro conjI impI)
  assume "Inserts QUEUED REALTIME rs NewWaitingRounds = Some wr"
  from Inserts_sorted_from [OF this] show "sorted_wrt (rt_le REALTIME) (GetSlice wr)"
    by (simp add: NewWaitingRounds_def GetSlice_def)
next
  assume "\<forall>r \<in> set rs. has_realtime REALTIME r"
  from Inserts_total_from [OF this, of NewWaitingRounds QUEUED]
  show "Inserts QUEUED REALTIME rs NewWaitingRounds \<noteq> None"
    by (simp add: NewWaitingRounds_def)
next
  assume a: "(\<forall>r \<in> set rs. State r = QUEUED) \<and>
    Inserts QUEUED REALTIME rs NewWaitingRounds = Some wr"
  from Inserts_queued_mset [of QUEUED REALTIME rs NewWaitingRounds wr] a
  show m: "mset (GetSlice wr) = mset rs"
    by (simp add: NewWaitingRounds_def GetSlice_def)
  from arg_cong [OF m, of size] show "Len wr = length rs"
    by (simp add: Len_def GetSlice_def)
qed

theorem GetSlice_nondecreasing_witness:
  "Inserts 3 4
     [\<lparr>ID = 1, State = 3, Timestamps = [0, 0, 0, 0, 50]\<rparr>,
      \<lparr>ID = 2, State = 3, Timestamps = [0, 0, 0, 0, 30]\<rparr>,
      \<lparr>ID = 3, State = 3, Timestamps = [0, 0, 0, 0, 40]\<rparr>,
      \<lparr>ID = 4, State = 3, Timestamps = [0, 0, 0, 0, 35]\<rparr>] NewWaitingRounds =
   Some \<lparr>rounds =
     [\<lparr>ID = 2, State = 3, Timestamps = [0, 0, 0, 0, 30]\<rparr>,
      \<lparr>ID = 4, State = 3, Timestamps = [0, 0, 0, 0, 35]\<rparr>,
      \<lparr>ID = 3, State = 3, Timestamps = [0, 0, 0, 0, 40]\<rparr>,
      \<lparr>ID = 1, State = 3, Timestamps = [0, 0, 0, 0, 50]\<rparr>], c = []\<rparr> \<and>
   sorted_wrt (rt_le 4) (GetSlice \<lparr>rounds =
     [\<lparr>ID = 2, State = 3, Timestamps = [0, 0, 0, 0, 30]\<rparr>,
      \<lparr>ID = 4, State = 3, Timestamps = [0, 0, 0, 0, 35]\<rparr>,
      \<lparr>ID = 3, State = 3, Timestamps = [0, 0, 0, 0, 40]\<rparr>,
      \<lparr>ID = 1, State = 3, Timestamps = [0, 0, 0, 0, 50]\<rparr>], c = []\<rparr>) \<and>
   mset (GetSlice \<lparr>rounds =
     [\<lparr>ID = 2, State = 3, Timestamps = [0, 0, 0, 0, 30]\<rparr>,
      \<lparr>ID = 4, State = 3, Timestamps = [0, 0, 0, 0, 35]\<rparr>,
      \<lparr>ID = 3, State = 3, Timestamps = [0, 0, 0, 0, 40]\<rparr>,
      \<lparr>ID = 1, State = 3, Timestamps = [0, 0, 0, 0, 50]\<rparr>], c = []\<rparr>) =
   mset
     [\<lparr>ID = 1, State = 3, Timestamps = [0, 0, 0, 0, 50]\<rparr>,
      \<lparr>ID = 2, State = 3, Timestamps = [0, 0, 0, 0, 30]\<rparr>,
      \<lparr>ID = 3, State = 3, Timestamps = [0, 0, 0, 0, 40]\<rparr>,
      \<lparr>ID = 4, State = 3, Timestamps = [0, 0, 0, 0, 35]\<rparr>] \<and>
   list_all (has_realtime 4)
     [\<lparr>ID = 1, State = 3, Timestamps = [0, 0, 0, 0, 50]\<rparr>,
      \<lparr>ID = 2, State = 3, Timestamps = [0, 0, 0, 0, 30]\<rparr>,
      \<lparr>ID = 3, State = 3, Timestamps = [0, 0, 0, 0, 40]\<rparr>,
      \<lparr>ID = 4, State = 3, Timestamps = [0, 0, 0, 0, 35]\<rparr>]"
proof -
  have run: "Inserts 3 4
     [\<lparr>ID = 1, State = 3, Timestamps = [0, 0, 0, 0, 50]\<rparr>,
      \<lparr>ID = 2, State = 3, Timestamps = [0, 0, 0, 0, 30]\<rparr>,
      \<lparr>ID = 3, State = 3, Timestamps = [0, 0, 0, 0, 40]\<rparr>,
      \<lparr>ID = 4, State = 3, Timestamps = [0, 0, 0, 0, 35]\<rparr>] NewWaitingRounds =
   Some \<lparr>rounds =
     [\<lparr>ID = 2, State = 3, Timestamps = [0, 0, 0, 0, 30]\<rparr>,
      \<lparr>ID = 4, State = 3, Timestamps = [0, 0, 0, 0, 35]\<rparr>,
      \<lparr>ID = 3, State = 3, Timestamps = [0, 0, 0, 0, 40]\<rparr>,
      \<lparr>ID = 1, State = 3, Timestamps = [0, 0, 0, 0, 50]\<rparr>], c = []\<rparr>"
    by (simp add: Insert_def NewWaitingRounds_def Broadcast_def remove_def getTime_def)
  have q: "\<forall>r \<in> set
     [\<lparr>ID = 1, State = 3, Timestamps = [0, 0, 0, 0, 50]\<rparr>,
      \<lparr>ID = 2, State = 3, Timestamps = [0, 0, 0, 0, 30]\<rparr>,
      \<lparr>ID = 3, State = 3, Timestamps = [0, 0, 0, 0, 40]\<rparr>,
      \<lparr>ID = 4, State = 3, Timestamps = [0, 0, 0, 0, 35]\<rparr>]. State r = (3 :: 32 word)"
    by simp
  have h: "list_all (has_realtime 4)
     [\<lparr>ID = 1, State = 3, Timestamps = [0, 0, 0, 0, 50]\<rparr>,
      \<lparr>ID = 2, State = 3, Timestamps = [0, 0, 0, 0, 30]\<rparr>,
      \<lparr>ID = 3, State = 3, Timestamps = [0, 0, 0, 0, 40]\<rparr>,
      \<lparr>ID = 4, State = 3, Timestamps = [0, 0, 0, 0, 35]\<rparr>]"
    by (simp add: has_realtime_def)
  from GetSlice_nondecreasing [THEN conjunct1, THEN mp, OF run]
    GetSlice_nondecreasing [THEN conjunct2, THEN conjunct1, THEN mp, OF h [unfolded list_all_iff], of 3]
    GetSlice_nondecreasing [THEN conjunct2, THEN conjunct2, THEN mp, OF conjI, OF q run]
    run h
  show ?thesis by simp
qed

text \<open>
  C1 (as stated) fails: \<open>Insert\<close> of a queued round never looks for an entry
  with the same id, so inserting the same queued round twice leaves two
  entries with that id.
\<close>

theorem Insert_same_id_twice_counterexample:
  "Inserts 3 4
     [\<lparr>ID = 7, State = 3, Timestamps = [0, 0, 0, 0, 10]\<rparr>,
      \<lparr>ID = 7, State = 3, Timestamps = [0, 0, 0, 0, 10]\<rparr>] NewWaitingRounds =
   Some \<lparr>rounds =
     [\<lparr>ID = 7, State = 3, Timestamps = [0, 0, 0, 0, 10]\<rparr>,
      \<lparr>ID = 7, State = 3, Timestamps = [0, 0, 0, 0, 10]\<rparr>], c = []\<rparr> \<and>
   \<not> distinct (map ID (GetSlice \<lparr>rounds =
     [\<lparr>ID = 7, State = 3, Timestamps = [0, 0, 0, 0, 10]\<rparr>,
      \<lparr>ID = 7, State = 3, Timestamps = [0, 0, 0, 0, 10]\<rparr>], c = []\<rparr>))"
  by (simp add: Insert_def NewWaitingRounds_def Broadcast_def getTime_def GetSlice_def)

text \<open>
  C1 (amended).  \<open>Insert\<close> of a queued round only adds: the entries afterwards
  are the entries before plus the new round.  The round ids in the queue stay
  pairwise different across an \<open>Insert\<close> provided a queued round is not
  inserted while an entry with its id is present; a round that is not queued
  is handled by \<open>remove\<close>, which takes one entry with that id out.
\<close>

theorem Insert_one_entry_per_id:
  assumes "Insert QUEUED REALTIME newRound wr = Some wr'"
  shows "(State newRound = QUEUED \<longrightarrow>
            mset (GetSlice wr') = add_mset newRound (mset (GetSlice wr))) \<and>
         (distinct (map ID (GetSlice wr)) \<and>
          (State newRound = QUEUED \<longrightarrow> ID newRound \<notin> ID ` set (GetSlice wr)) \<longrightarrow>
            distinct (map ID (GetSlice wr')))"
proof (cases "State newRound = QUEUED")
  case True
  from Insert_queued_mset [OF assms True]
  have m: "mset (rounds wr') = add_mset newRound (mset (rounds wr))" .
  then have "mset (map ID (rounds wr')) = mset (ID newRound # map ID (rounds wr))"
    by simp
  then have "distinct (map ID (rounds wr')) = distinct (ID newRound # map ID (rounds wr))"
    by (rule mset_eq_imp_distinct_iff)
  with m True show ?thesis by (simp add: GetSlice_def)
next
  case False
  with assms have wr': "wr' = remove newRound wr" by (simp add: Insert_def)
  from remove_cases [of newRound wr] have
    "distinct (map ID (rounds wr)) \<longrightarrow> distinct (map ID (rounds (remove newRound wr)))"
    by auto
  with False wr' show ?thesis by (simp add: GetSlice_def)
qed

theorem Insert_one_entry_per_id_witness:
  "Insert 3 4 \<lparr>ID = 8, State = 3, Timestamps = [0, 0, 0, 0, 5]\<rparr>
     \<lparr>rounds = [\<lparr>ID = 7, State = 3, Timestamps = [0, 0, 0, 0, 10]\<rparr>], c = []\<rparr> =
   Some \<lparr>rounds = [\<lparr>ID = 8, State = 3, Timestamps = [0, 0, 0, 0, 5]\<rparr>,
                   \<lparr>ID = 7, State = 3, Timestamps = [0, 0, 0, 0, 10]\<rparr>], c = []\<rparr> \<and>
   distinct (map ID (GetSlice
     \<lparr>rounds = [\<lparr>ID = 7, State = 3, Timestamps = [0, 0, 0, 0, 10]\<rparr>], c = []\<rparr>)) \<and>
   (8 :: 64 word) \<notin> ID ` set (GetSlice
     \<lparr>rounds = [\<lparr>ID = 7, State = 3, Timestamps = [0, 0, 0, 0, 10]\<rparr>], c = []\<rparr>) \<and>
   distinct (map ID (GetSlice
     \<lparr>rounds = [\<lparr>ID = 8, State = 3, Timestamps = [0, 0, 0, 0, 5]\<rparr>,
                \<lparr>ID = 7, State = 3, Timestamps = [0, 0, 0, 0, 10]\<rparr>], c = []\<rparr>))"
proof -
  have run: "Insert 3 4 \<lparr>ID = 8, State = 3, Timestamps = [0, 0, 0, 0, 5]\<rparr>
     \<lparr>rounds = [\<lparr>ID = 7, State = 3, Timestamps = [0, 0, 0, 0, 10]\<rparr>], c = []\<rparr> =
   Some \<lparr>rounds = [\<lparr>ID = 8, State = 3, Timestamps = [0, 0, 0, 0, 5]\<rparr>,
                   \<lparr>ID = 7, State = 3, Timestamps = [0, 0, 0, 0, 10]\<rparr>], c = []\<rparr>"
    by (simp add: Insert_def Broadcast_def getTime_def)
  from Insert_one_entry_per_id [OF run] run show ?thesis
    by (simp add: GetSlice_def)
qed

text \<open>
  C7.  \<open>Insert\<close> of a round that is not queued never panics.  When some entry
  has the round's id, exactly one entry is unlinked (the one nearest the back
  with that id), so \<open>Len\<close> goes down by exactly one and nothing else changes.
  When no entry has it, the queue is returned as it was.
\<close>

theorem Insert_not_queued_removes:
  "State newRound \<noteq> QUEUED \<Longrightarrow>
   (if \<exists>e \<in> set (rounds wr). ID e = ID newRound
    then \<exists>ys e zs. rounds wr = ys @ e # zs \<and> ID e = ID newRound \<and>
           (\<forall>z \<in> set zs. ID z \<noteq> ID newRound) \<and>
           Insert QUEUED REALTIME newRound wr = Some (wr\<lparr>rounds := ys @ zs\<rparr>) \<and>
           Len (wr\<lparr>rounds := ys @ zs\<rparr>) + 1 = Len wr
    else Insert QUEUED REALTIME newRound wr = Some wr)"
proof -
  assume nq: "State newRound \<noteq> QUEUED"
  then have ins: "Insert QUEUED REALTIME newRound wr = Some (remove newRound wr)"
    by (simp add: Insert_def)
  show ?thesis
  proof (cases "\<exists>e \<in> set (rounds wr). ID e = ID newRound")
    case True
    from remove_present [OF True] obtain ys e zs where
      h: "rounds wr = ys @ e # zs" "ID e = ID newRound" "\<forall>z \<in> set zs. ID z \<noteq> ID newRound"
         "remove newRound wr = wr\<lparr>rounds := ys @ zs\<rparr>"
      by blast
    then have "rounds wr = ys @ e # zs \<and> ID e = ID newRound \<and>
           (\<forall>z \<in> set zs. ID z \<noteq> ID newRound) \<and>
           Insert QUEUED REALTIME newRound wr = Some (wr\<lparr>rounds := ys @ zs\<rparr>) \<and>
           Len (wr\<lparr>rounds := ys @ zs\<rparr>) + 1 = Len wr"
      using ins by (simp add: Len_def)
    then have "\<exists>ys e zs. rounds wr = ys @ e # zs \<and> ID e = ID newRound \<and>
           (\<forall>z \<in> set zs. ID z \<noteq> ID newRound) \<and>
           Insert QUEUED REALTIME newRound wr = Some (wr\<lparr>rounds := ys @ zs\<rparr>) \<and>
           Len (wr\<lparr>rounds := ys @ zs\<rparr>) + 1 = Len wr"
      by blast
    then show ?thesis by (simp only: True if_True)
  next
    case False
    then have "\<forall>x \<in> set (rounds wr). ID x \<noteq> ID newRound" by blast
    from remove_absent [OF this] have "remove newRound wr = wr" .
    with ins have "Insert QUEUED REALTIME newRound wr = Some wr" by simp
    then show ?thesis by (simp only: False if_False)
  qed
qed

theorem Insert_not_queued_removes_witness:
  "State \<lparr>ID = 7, State = 5, Timestamps = []\<rparr> \<noteq> (3 :: 32 word) \<and>
   Insert 3 4 \<lparr>ID = 7, State = 5, Timestamps = []\<rparr>
     \<lparr>rounds = [\<lparr>ID = 8, State = 3, Timestamps = [0, 0, 0, 0, 5]\<rparr>,
                \<lparr>ID = 7, State = 3, Timestamps = [0, 0, 0, 0, 10]\<rparr>], c = []\<rparr> =
   Some \<lparr>rounds = [\<lparr>ID = 8, State = 3, Timestamps = [0, 0, 0, 0, 5]\<rparr>], c = []\<rparr> \<and>
   Insert 3 4 \<lparr>ID = 7, State = 5, Timestamps = []\<rparr>
     \<lparr>rounds = [\<lparr>ID = 8, State = 3, Timestamps = [0, 0, 0, 0, 5]\<rparr>], c = []\<rparr> =
   Some \<lparr>rounds = [\<lparr>ID = 8, State = 3, Timestamps = [0, 0, 0, 0, 5]\<rparr>], c = []\<rparr>"
proof -
  have nq: "State \<lparr>ID = 7, State = 5, Timestamps = []\<rparr> \<noteq> (3 :: 32 word)" by simp
  from Insert_not_queued_removes [OF nq, of
      "\<lparr>rounds = [\<lparr>ID = 8, State = 3, Timestamps = [0, 0, 0, 0, 5]\<rparr>], c = []\<rparr>" 4]
  have absent: "Insert 3 4 \<lparr>ID = 7, State = 5, Timestamps = []\<rparr>
     \<lparr>rounds = [\<lparr>ID = 8, State = 3, Timestamps = [0, 0, 0, 0, 5]\<rparr>], c = []\<rparr> =
   Some \<lparr>rounds = [\<lparr>ID = 8, State = 3, Timestamps = [0, 0, 0, 0, 5]\<rparr>], c = []\<rparr>"
    by simp
  have present: "Insert 3 4 \<lparr>ID = 7, State = 5, Timestamps = []\<rparr>
     \<lparr>rounds = [\<lparr>ID = 8, State = 3, Timestamps = [0, 0, 0, 0, 5]\<rparr>,
                \<lparr>ID = 7, State = 3, Timestamps = [0, 0, 0, 0, 10]\<rparr>], c = []\<rparr> =
   Some \<lparr>rounds = [\<lparr>ID = 8, State = 3, Timestamps = [0, 0, 0, 0, 5]\<rparr>], c = []\<rparr>"
    by (simp add: Insert_def remove_def)
  from nq absent present show ?thesis by simp
qed

lemma insertLoop_position:
  assumes "getTime RT new = Some tn" "\<forall>x \<in> set before. has_realtime RT x"
  shows "\<exists>ys zs. rev before = ys @ zs \<and>
           insertLoop RT new before behind = Some (ys @ new # zs @ behind) \<and>
           (ys = [] \<or> (\<exists>t. getTime RT (last ys) = Some t \<and> t < tn)) \<and>
           (\<forall>z \<in> set zs. \<exists>t. getTime RT z = Some t \<and> tn \<le> t)"
  using assms(2)
proof (induction before arbitrary: behind)
  case Nil
  then show ?case by simp
next
  case (Cons e before)
  from Cons.prems obtain te where te: "getTime RT e = Some te"
    using getTime_Some_iff [of RT e] by auto
  show ?case
  proof (cases "tn > te")
    case True
    with te assms(1) have "rev (e # before) = (rev before @ [e]) @ [] \<and>
        insertLoop RT new (e # before) behind = Some ((rev before @ [e]) @ new # [] @ behind) \<and>
        (\<exists>t. getTime RT (last (rev before @ [e])) = Some t \<and> t < tn) \<and>
        (\<forall>z \<in> set []. \<exists>t. getTime RT z = Some t \<and> tn \<le> t)"
      by simp
    then show ?thesis by blast
  next
    case False
    from Cons.prems have "\<forall>x \<in> set before. has_realtime RT x" by simp
    from Cons.IH [OF this, of "e # behind"] obtain ys zs where
      h: "rev before = ys @ zs"
         "insertLoop RT new before (e # behind) = Some (ys @ new # zs @ e # behind)"
         "ys = [] \<or> (\<exists>t. getTime RT (last ys) = Some t \<and> t < tn)"
         "\<forall>z \<in> set zs. \<exists>t. getTime RT z = Some t \<and> tn \<le> t"
      by blast
    from False have "tn \<le> te" by simp
    with h te assms(1) False have "rev (e # before) = ys @ (zs @ [e]) \<and>
        insertLoop RT new (e # before) behind = Some (ys @ new # (zs @ [e]) @ behind) \<and>
        (ys = [] \<or> (\<exists>t. getTime RT (last ys) = Some t \<and> t < tn)) \<and>
        (\<forall>z \<in> set (zs @ [e]). \<exists>t. getTime RT z = Some t \<and> tn \<le> t)"
      by simp
    then show ?thesis by blast
  qed
qed

lemma sorted_below_last:
  assumes "sorted_wrt (rt_le RT) (ys @ zs)" "ys \<noteq> []"
    "getTime RT (last ys) = Some t" "t < tn" "y \<in> set ys"
  shows "\<exists>t'. getTime RT y = Some t' \<and> t' < tn"
proof (cases "y = last ys")
  case True
  with assms(3,4) show ?thesis by simp
next
  case False
  from assms(2) have ys: "ys = butlast ys @ [last ys]" by simp
  with assms(5) False have "y \<in> set (butlast ys)"
    by (metis Un_iff empty_iff empty_set insert_iff list.simps(15) set_append)
  moreover from assms(1) have "sorted_wrt (rt_le RT) ys" by (simp add: sorted_wrt_append)
  then have "sorted_wrt (rt_le RT) (butlast ys @ [last ys])" using ys by simp
  ultimately have "rt_le RT y (last ys)" by (simp add: sorted_wrt_append)
  with assms(3,4) show ?thesis by (auto simp: rt_le_def split: option.splits)
qed

text \<open>
  C10 (as stated) fails: the loop passes every entry whose timestamp is not
  strictly below the new one, so a round that ties with an entry is linked in
  front of it.
\<close>

theorem Insert_tie_counterexample:
  "Inserts 3 4
     [\<lparr>ID = 1, State = 3, Timestamps = [0, 0, 0, 0, 10]\<rparr>,
      \<lparr>ID = 2, State = 3, Timestamps = [0, 0, 0, 0, 10]\<rparr>] NewWaitingRounds =
   Some \<lparr>rounds =
     [\<lparr>ID = 2, State = 3, Timestamps = [0, 0, 0, 0, 10]\<rparr>,
      \<lparr>ID = 1, State = 3, Timestamps = [0, 0, 0, 0, 10]\<rparr>], c = []\<rparr>"
  by (simp add: Insert_def NewWaitingRounds_def Broadcast_def getTime_def)

text \<open>
  C10 (amended).  In a queue that is in timestamp order, \<open>Insert\<close> links a
  queued round directly behind the entries whose realtime timestamp is
  strictly smaller than its own and in front of every entry whose timestamp
  is equal or larger: among equal timestamps the later arrival comes first.
\<close>

theorem Insert_queued_position:
  assumes "State newRound = QUEUED"
    and "getTime REALTIME newRound = Some tn"
    and "sorted_wrt (rt_le REALTIME) (rounds wr)"
    and "\<forall>e \<in> set (rounds wr). has_realtime REALTIME e"
  shows "\<exists>ys zs. rounds wr = ys @ zs \<and>
           Insert QUEUED REALTIME newRound wr = Some (Broadcast (wr\<lparr>rounds := ys @ newRound # zs\<rparr>)) \<and>
           (\<forall>y \<in> set ys. \<exists>t. getTime REALTIME y = Some t \<and> t < tn) \<and>
           (\<forall>z \<in> set zs. \<exists>t. getTime REALTIME z = Some t \<and> tn \<le> t)"
proof -
  from assms(4) have "\<forall>x \<in> set (rev (rounds wr)). has_realtime REALTIME x" by simp
  from insertLoop_position [OF assms(2) this, of "[]"] obtain ys zs where
    h: "rev (rev (rounds wr)) = ys @ zs"
       "insertLoop REALTIME newRound (rev (rounds wr)) [] = Some (ys @ newRound # zs @ [])"
       "ys = [] \<or> (\<exists>t. getTime REALTIME (last ys) = Some t \<and> t < tn)"
       "\<forall>z \<in> set zs. \<exists>t. getTime REALTIME z = Some t \<and> tn \<le> t"
    by blast
  from h(1) have split: "rounds wr = ys @ zs" by simp
  have below: "\<forall>y \<in> set ys. \<exists>t. getTime REALTIME y = Some t \<and> t < tn"
  proof (cases "ys = []")
    case True
    then show ?thesis by simp
  next
    case False
    with h(3) obtain t where t: "getTime REALTIME (last ys) = Some t" "t < tn" by blast
    from assms(3) split have "sorted_wrt (rt_le REALTIME) (ys @ zs)" by simp
    from sorted_below_last [OF this False t] show ?thesis by blast
  qed
  from h(2) assms(1)
  have "Insert QUEUED REALTIME newRound wr = Some (Broadcast (wr\<lparr>rounds := ys @ newRound # zs\<rparr>))"
    by (simp add: Insert_def)
  with split below h(4) show ?thesis by blast
qed

theorem Insert_queued_position_witness:
  "State \<lparr>ID = 2, State = 3, Timestamps = [0, 0, 0, 0, 10]\<rparr> = (3 :: 32 word) \<and>
   getTime 4 \<lparr>ID = 2, State = 3, Timestamps = [0, 0, 0, 0, 10]\<rparr> = Some 10 \<and>
   sorted_wrt (rt_le 4) (rounds \<lparr>rounds =
     [\<lparr>ID = 0, State = 3, Timestamps = [0, 0, 0, 0, 9]\<rparr>,
      \<lparr>ID = 1, State = 3, Timestamps = [0, 0, 0, 0, 10]\<rparr>], c = [0]\<rparr>) \<and>
   list_all (has_realtime 4) (rounds \<lparr>rounds =
     [\<lparr>ID = 0, State = 3, Timestamps = [0, 0, 0, 0, 9]\<rparr>,
      \<lparr>ID = 1, State = 3, Timestamps = [0, 0, 0, 0, 10]\<rparr>], c = [0]\<rparr>) \<and>
   (\<exists>ys zs.
      Insert 3 4 \<lparr>ID = 2, State = 3, Timestamps = [0, 0, 0, 0, 10]\<rparr>
        \<lparr>rounds =
          [\<lparr>ID = 0, State = 3, Timestamps = [0, 0, 0, 0, 9]\<rparr>,
           \<lparr>ID = 1, State = 3, Timestamps = [0, 0, 0, 0, 10]\<rparr>], c = [0]\<rparr> =
      Some (Broadcast \<lparr>rounds = ys @ \<lparr>ID = 2, State = 3, Timestamps = [0, 0, 0, 0, 10]\<rparr> # zs,
                       c = [0]\<rparr>) \<and>
      (\<forall>z \<in> set zs. \<exists>t. getTime 4 z = Some t \<and> 10 \<le> t))"
proof -
  have a: "State \<lparr>ID = 2, State = 3, Timestamps = [0, 0, 0, 0, 10]\<rparr> = (3 :: 32 word)"
    by simp
  have b: "getTime 4 \<lparr>ID = 2, State = 3, Timestamps = [0, 0, 0, 0, 10]\<rparr> = Some 10"
    by (simp add: getTime_def)
  have d: "sorted_wrt (rt_le 4) (rounds \<lparr>rounds =
     [\<lparr>ID = 0, State = 3, Timestamps = [0, 0, 0, 0, 9]\<rparr>,
      \<lparr>ID = 1, State = 3, Timestamps = [0, 0, 0, 0, 10]\<rparr>], c = [0]\<rparr>)"
    by (simp add: rt_le_def getTime_def)
  have e: "\<forall>e \<in> set (rounds \<lparr>rounds =
     [\<lparr>ID = 0, State = 3, Timestamps = [0, 0, 0, 0, 9]\<rparr>,
      \<lparr>ID = 1, State = 3, Timestamps = [0, 0, 0, 0, 10]\<rparr>], c = [0]\<rparr>). has_realtime 4 e"
    by (simp add: has_realtime_def)
  from Insert_queued_position [OF a b d e] obtain ys zs where
    "Insert 3 4 \<lparr>ID = 2, State = 3, Timestamps = [0, 0, 0, 0, 10]\<rparr>
        \<lparr>rounds =
          [\<lparr>ID = 0, State = 3, Timestamps = [0, 0, 0, 0, 9]\<rparr>,
           \<lparr>ID = 1, State = 3, Timestamps = [0, 0, 0, 0, 10]\<rparr>], c = [0]\<rparr> =
      Some (Broadcast \<lparr>rounds = ys @ \<lparr>ID = 2, State = 3, Timestamps = [0, 0, 0, 0, 10]\<rparr> # zs,
                       c = [0]\<rparr>) \<and>
      (\<forall>z \<in> set zs. \<exists>t. getTime 4 z = Some t \<and> 10 \<le> t)"
    by auto
  then have "\<exists>ys zs.
      Insert 3 4 \<lparr>ID = 2, State = 3, Timestamps = [0, 0, 0, 0, 10]\<rparr>
        \<lparr>rounds =
          [\<lparr>ID = 0, State = 3, Timestamps = [0, 0, 0, 0, 9]\<rparr>,
           \<lparr>ID = 1, State = 3, Timestamps = [0, 0, 0, 0, 10]\<rparr>], c = [0]\<rparr> =
      Some (Broadcast \<lparr>rounds = ys @ \<lparr>ID = 2, State = 3, Timestamps = [0, 0, 0, 0, 10]\<rparr> # zs,
                       c = [0]\<rparr>) \<and>
      (\<forall>z \<in> set zs. \<exists>t. getTime 4 z = Some t \<and> 10 \<le> t)"
    by blast
  moreover from e have "list_all (has_realtime 4) (rounds \<lparr>rounds =
     [\<lparr>ID = 0, State = 3, Timestamps = [0, 0, 0, 0, 9]\<rparr>,
      \<lparr>ID = 1, State = 3, Timestamps = [0, 0, 0, 0, 10]\<rparr>], c = [0]\<rparr>)"
    by (simp add: has_realtime_def)
  ultimately show ?thesis using a b d by blast
qed

section \<open>Properties of GetUpcomingRealtime\<close>

lemma exec_not_queued_empty:
  assumes "rounds (queue s) = []" "\<not> inserts_queued Q x"
  shows "\<exists>s'. exec Q RT x s = Some s' \<and> rounds (queue s') = [] \<and>
           (caller s' = caller s \<or>
            caller s = AtGetFurthest \<and> caller s' = AtSelect \<or>
            caller s = AtSelect \<and> caller s' = Returned None (Some timeOutError))"
proof (cases x)
  case (Insert_call r)
  with assms(2) have "State r \<noteq> Q" by simp
  moreover from assms(1) have "remove r (queue s) = queue s"
    by (simp add: remove_absent)
  ultimately show ?thesis using Insert_call assms(1) by (simp add: Insert_def)
next
  case Timer_fires
  with assms(1) show ?thesis by simp
next
  case Helper_runs
  with assms(1) show ?thesis
    by (simp add: helper_step_def split: helper_pc.splits)
next
  case Caller_getFurthest
  with assms(1) show ?thesis
    by (simp add: caller_getFurthest_def getFurthest_def Len_def split: caller_pc.splits)
next
  case Select_timer
  with assms(1) show ?thesis by (simp add: select_timer_def)
next
  case Select_sig
  with assms(1) show ?thesis
    by (simp add: select_sig_def getFurthest_def Len_def)
qed

lemma run_not_queued_empty:
  assumes "\<forall>x \<in> set es. \<not> inserts_queued Q x" "rounds (queue s) = []"
    "caller s = AtGetFurthest \<or> caller s = AtSelect \<or> caller s = Returned None (Some timeOutError)"
  shows "\<exists>s'. run Q RT es s = Some s' \<and> rounds (queue s') = [] \<and>
           (caller s' = AtGetFurthest \<or> caller s' = AtSelect \<or>
            caller s' = Returned None (Some timeOutError))"
  using assms
proof (induction es arbitrary: s)
  case Nil
  then show ?case by simp
next
  case (Cons x es)
  from Cons.prems(1) have nq: "\<not> inserts_queued Q x" by simp
  from exec_not_queued_empty [OF Cons.prems(2) nq, of RT] obtain s1 where
    s1: "exec Q RT x s = Some s1" "rounds (queue s1) = []"
        "caller s1 = caller s \<or>
         caller s = AtGetFurthest \<and> caller s1 = AtSelect \<or>
         caller s = AtSelect \<and> caller s1 = Returned None (Some timeOutError)"
    by blast
  from s1(3) Cons.prems(3)
  have c1: "caller s1 = AtGetFurthest \<or> caller s1 = AtSelect \<or>
            caller s1 = Returned None (Some timeOutError)"
    by auto
  from Cons.prems(1) have "\<forall>x \<in> set es. \<not> inserts_queued Q x" by simp
  from Cons.IH [OF this s1(2) c1] s1(1) show ?case by simp
qed

lemma run_append:
  "run Q RT (es @ fs) s = (case run Q RT es s of None \<Rightarrow> None | Some s' \<Rightarrow> run Q RT fs s')"
  by (induction es arbitrary: s) (auto split: option.splits)

lemma timeout_after_timer:
  assumes "rounds (queue s) = []"
    "caller s = AtGetFurthest \<or> caller s = AtSelect \<or> caller s = Returned None (Some timeOutError)"
  shows "\<exists>s'. run Q RT [Timer_fires, Caller_getFurthest, Select_timer] s = Some s' \<and>
           caller s' = Returned None (Some timeOutError)"
  using assms
  by (auto simp: caller_getFurthest_def select_timer_def getFurthest_def Len_def)

lemma exec_result_shape:
  assumes "exec Q RT x s = Some s'" "result_shape s"
  shows "result_shape s'"
proof (cases x)
  case (Insert_call r)
  with assms show ?thesis
    by (auto simp: result_shape_def split: option.splits)
next
  case Timer_fires
  with assms show ?thesis by (auto simp: result_shape_def)
next
  case Helper_runs
  with assms show ?thesis
    by (auto simp: result_shape_def helper_step_def split: helper_pc.splits)
next
  case Caller_getFurthest
  with assms show ?thesis
    by (auto simp: result_shape_def caller_getFurthest_def split: caller_pc.splits option.splits)
next
  case Select_timer
  with assms show ?thesis
    by (auto simp: result_shape_def select_timer_def split: caller_pc.splits if_splits)
next
  case Select_sig
  with assms show ?thesis
    by (auto simp: result_shape_def select_sig_def split: caller_pc.splits option.splits if_splits)
qed

lemma run_result_shape:
  "run Q RT es s = Some s' \<Longrightarrow> result_shape s \<Longrightarrow> result_shape s'"
proof (induction es arbitrary: s)
  case Nil
  then show ?case by simp
next
  case (Cons x es)
  from Cons.prems(1) obtain s1 where s1: "exec Q RT x s = Some s1" "run Q RT es s1 = Some s'"
    by (auto split: option.splits)
  from Cons.IH [OF s1(2) exec_result_shape [OF s1(1) Cons.prems(2)]] show ?case .
qed

lemma exec_error_needs_timer:
  assumes "exec Q RT x s = Some s'" "caller s' = Returned res (Some err)"
  shows "caller s = Returned res (Some err) \<or> timer s"
proof (cases x)
  case (Insert_call r)
  with assms show ?thesis by (auto split: option.splits)
next
  case Timer_fires
  with assms show ?thesis by auto
next
  case Helper_runs
  with assms show ?thesis
    by (auto simp: helper_step_def split: helper_pc.splits if_splits)
next
  case Caller_getFurthest
  with assms show ?thesis
    by (auto simp: caller_getFurthest_def split: caller_pc.splits option.splits)
next
  case Select_timer
  with assms show ?thesis
    by (auto simp: select_timer_def split: if_splits)
next
  case Select_sig
  with assms show ?thesis
    by (auto simp: select_sig_def split: if_splits option.splits)
qed

lemma exec_timer_set:
  assumes "exec Q RT x s = Some s'" "timer s'"
  shows "timer s \<or> x = Timer_fires"
proof (cases x)
  case (Insert_call r)
  with assms show ?thesis by (auto split: option.splits)
next
  case Timer_fires
  then show ?thesis by simp
next
  case Helper_runs
  with assms show ?thesis
    by (auto simp: helper_step_def split: helper_pc.splits if_splits)
next
  case Caller_getFurthest
  with assms show ?thesis
    by (auto simp: caller_getFurthest_def split: caller_pc.splits option.splits)
next
  case Select_timer
  with assms show ?thesis
    by (auto simp: select_timer_def split: if_splits)
next
  case Select_sig
  with assms show ?thesis
    by (auto simp: select_sig_def split: if_splits option.splits)
qed

lemma run_timer_set:
  "run Q RT es s = Some s' \<Longrightarrow> timer s' \<Longrightarrow> timer s \<or> Timer_fires \<in> set es"
proof (induction es arbitrary: s)
  case Nil
  then show ?case by simp
next
  case (Cons x es)
  from Cons.prems(1) obtain s1 where s1: "exec Q RT x s = Some s1" "run Q RT es s1 = Some s'"
    by (auto split: option.splits)
  from Cons.IH [OF s1(2) Cons.prems(2)] exec_timer_set [OF s1(1)] show ?case by auto
qed

lemma run_error_needs_timer:
  "run Q RT es s = Some s' \<Longrightarrow> caller s' = Returned res (Some err) \<Longrightarrow>
   caller s = Returned res (Some err) \<or> timer s \<or> Timer_fires \<in> set es"
proof (induction es arbitrary: s)
  case Nil
  then show ?case by simp
next
  case (Cons x es)
  from Cons.prems(1) obtain s1 where s1: "exec Q RT x s = Some s1" "run Q RT es s1 = Some s'"
    by (auto split: option.splits)
  from Cons.IH [OF s1(2) Cons.prems(2)]
  have "caller s1 = Returned res (Some err) \<or> timer s1 \<or> Timer_fires \<in> set es" .
  with exec_error_needs_timer [OF s1(1)] exec_timer_set [OF s1(1)] show ?case by auto
qed

text \<open>
  C4 (as stated) fails in its middle part: the timer case of the \<open>select\<close>
  returns without looking at the queue.  Here a round is inserted while the
  call waits, the helper has already signalled, the timer fires, and the
  \<open>select\<close> takes the timer case: the call returns the error although the
  round is in the queue.
\<close>

theorem GetUpcomingRealtime_error_with_round_counterexample:
  "run 3 4
     [Caller_getFurthest, Helper_runs,
      Insert_call \<lparr>ID = 1, State = 3, Timestamps = [0, 0, 0, 0, 10]\<rparr>,
      Helper_runs, Timer_fires, Select_timer]
     (GetUpcomingRealtime_start NewWaitingRounds) =
   Some \<lparr>queue = \<lparr>rounds = [\<lparr>ID = 1, State = 3, Timestamps = [0, 0, 0, 0, 10]\<rparr>], c = []\<rparr>,
         caller = Returned None (Some timeOutError), helper = Sent, sig = True,
         timer = False\<rparr>"
  by (simp add: GetUpcomingRealtime_start_def NewWaitingRounds_def caller_getFurthest_def
      getFurthest_def Len_def helper_step_def Insert_def Broadcast_def select_timer_def)

text \<open>
  C4 (amended).  On an empty queue into which no queued round is inserted,
  the call does not return before the timer has fired, and once the timer
  has fired and the caller runs it returns a nil round with the timed-out
  error.  Whatever the schedule, a call returns either a round and no error
  or no round and \<open>timeOutError\<close>, the only error there is, and it returns the
  error only after the timer has fired.  A call that finds the queue
  non-empty at its first look returns the last round and no error.
\<close>

theorem GetUpcomingRealtime_timeout_error:
  "(rounds q = [] \<and> (\<forall>x \<in> set es. \<not> inserts_queued QUEUED x) \<longrightarrow>
      (\<exists>s. run QUEUED REALTIME es (GetUpcomingRealtime_start q) = Some s \<and>
            (caller s = AtGetFurthest \<or> caller s = AtSelect \<or>
             caller s = Returned None (Some timeOutError))) \<and>
      (\<exists>s. run QUEUED REALTIME (es @ [Timer_fires, Caller_getFurthest, Select_timer])
              (GetUpcomingRealtime_start q) = Some s \<and>
            caller s = Returned None (Some timeOutError))) \<and>
   (run QUEUED REALTIME es (GetUpcomingRealtime_start q) = Some s' \<and>
    caller s' = Returned res err \<longrightarrow>
      (res = None) = (err = Some timeOutError) \<and> (err \<noteq> None \<longrightarrow> Timer_fires \<in> set es)) \<and>
   (rounds q \<noteq> [] \<longrightarrow>
      exec QUEUED REALTIME Caller_getFurthest (GetUpcomingRealtime_start q) =
      Some ((GetUpcomingRealtime_start q)\<lparr>caller := Returned (Some (last (rounds q))) None\<rparr>))"
proof (intro conjI impI)
  assume a: "rounds q = [] \<and> (\<forall>x \<in> set es. \<not> inserts_queued QUEUED x)"
  then have e: "rounds (queue (GetUpcomingRealtime_start q)) = []"
    and n: "\<forall>x \<in> set es. \<not> inserts_queued QUEUED x"
    by (simp_all add: GetUpcomingRealtime_start_def)
  have c0: "caller (GetUpcomingRealtime_start q) = AtGetFurthest \<or>
      caller (GetUpcomingRealtime_start q) = AtSelect \<or>
      caller (GetUpcomingRealtime_start q) = Returned None (Some timeOutError)"
    by (simp add: GetUpcomingRealtime_start_def)
  from run_not_queued_empty [OF n e c0, of REALTIME] obtain s where
    s: "run QUEUED REALTIME es (GetUpcomingRealtime_start q) = Some s" "rounds (queue s) = []"
       "caller s = AtGetFurthest \<or> caller s = AtSelect \<or>
        caller s = Returned None (Some timeOutError)"
    by blast
  from s(1,3) show "\<exists>s. run QUEUED REALTIME es (GetUpcomingRealtime_start q) = Some s \<and>
            (caller s = AtGetFurthest \<or> caller s = AtSelect \<or>
             caller s = Returned None (Some timeOutError))"
    by blast
  from timeout_after_timer [OF s(2,3), of QUEUED REALTIME] s(1)
  show "\<exists>s. run QUEUED REALTIME (es @ [Timer_fires, Caller_getFurthest, Select_timer])
              (GetUpcomingRealtime_start q) = Some s \<and>
            caller s = Returned None (Some timeOutError)"
    by (simp add: run_append)
next
  assume a: "run QUEUED REALTIME es (GetUpcomingRealtime_start q) = Some s' \<and>
    caller s' = Returned res err"
  have "result_shape (GetUpcomingRealtime_start q)"
    by (simp add: result_shape_def GetUpcomingRealtime_start_def)
  with a run_result_shape have "result_shape s'" by blast
  with a show "(res = None) = (err = Some timeOutError)" by (simp add: result_shape_def)
next
  assume a: "run QUEUED REALTIME es (GetUpcomingRealtime_start q) = Some s' \<and>
    caller s' = Returned res err" and "err \<noteq> None"
  then obtain e where "err = Some e" by auto
  with a run_error_needs_timer [of QUEUED REALTIME es "GetUpcomingRealtime_start q" s' res e]
  show "Timer_fires \<in> set es" by (simp add: GetUpcomingRealtime_start_def)
next
  assume "rounds q \<noteq> []"
  then show "exec QUEUED REALTIME Caller_getFurthest (GetUpcomingRealtime_start q) =
      Some ((GetUpcomingRealtime_start q)\<lparr>caller := Returned (Some (last (rounds q))) None\<rparr>)"
    by (simp add: GetUpcomingRealtime_start_def caller_getFurthest_def getFurthest_def Len_def)
qed

theorem GetUpcomingRealtime_timeout_error_witness:
  "rounds NewWaitingRounds = [] \<and>
   \<not> inserts_queued 3 (Insert_call \<lparr>ID = 1, State = 5, Timestamps = []\<rparr>) \<and>
   run 3 4 [Helper_runs, Insert_call \<lparr>ID = 1, State = 5, Timestamps = []\<rparr>,
            Caller_getFurthest, Timer_fires, Select_timer]
     (GetUpcomingRealtime_start NewWaitingRounds) =
   Some \<lparr>queue = \<lparr>rounds = [], c = [0]\<rparr>, caller = Returned None (Some timeOutError),
         helper = InWait, sig = False, timer = False\<rparr> \<and>
   Timer_fires \<in> set [Helper_runs, Insert_call \<lparr>ID = 1, State = 5, Timestamps = []\<rparr>,
                      Caller_getFurthest, Timer_fires, Select_timer] \<and>
   rounds \<lparr>rounds = [\<lparr>ID = 1, State = 3, Timestamps = [0, 0, 0, 0, 10]\<rparr>], c = []\<rparr> \<noteq> [] \<and>
   exec 3 4 Caller_getFurthest (GetUpcomingRealtime_start
     \<lparr>rounds = [\<lparr>ID = 1, State = 3, Timestamps = [0, 0, 0, 0, 10]\<rparr>], c = []\<rparr>) =
   Some \<lparr>queue = \<lparr>rounds = [\<lparr>ID = 1, State = 3, Timestamps = [0, 0, 0, 0, 10]\<rparr>], c = []\<rparr>,
         caller = Returned (Some \<lparr>ID = 1, State = 3, Timestamps = [0, 0, 0, 0, 10]\<rparr>) None,
         helper = AtLock, sig = False, timer = False\<rparr>"
proof -
  have e: "rounds NewWaitingRounds = []" by (simp add: NewWaitingRounds_def)
  have n: "\<forall>x \<in> set [Helper_runs, Insert_call \<lparr>ID = 1, State = 5, Timestamps = []\<rparr>,
                Caller_getFurthest, Timer_fires, Select_timer]. \<not> inserts_queued 3 x"
    by simp
  have r: "run 3 4 [Helper_runs, Insert_call \<lparr>ID = 1, State = 5, Timestamps = []\<rparr>,
            Caller_getFurthest, Timer_fires, Select_timer]
     (GetUpcomingRealtime_start NewWaitingRounds) =
   Some \<lparr>queue = \<lparr>rounds = [], c = [0]\<rparr>, caller = Returned None (Some timeOutError),
         helper = InWait, sig = False, timer = False\<rparr>"
    by (simp add: GetUpcomingRealtime_start_def NewWaitingRounds_def caller_getFurthest_def
        getFurthest_def Len_def helper_step_def Insert_def remove_def select_timer_def)
  have c: "caller \<lparr>queue = \<lparr>rounds = [], c = [0]\<rparr>, caller = Returned None (Some timeOutError),
         helper = InWait, sig = False, timer = False\<rparr> = Returned None (Some timeOutError)"
    by simp
  have ne: "rounds \<lparr>rounds = [\<lparr>ID = 1, State = 3, Timestamps = [0, 0, 0, 0, 10]\<rparr>], c = []\<rparr> \<noteq> []"
    by simp
  from GetUpcomingRealtime_timeout_error [of NewWaitingRounds
      "[Helper_runs, Insert_call \<lparr>ID = 1, State = 5, Timestamps = []\<rparr>,
        Caller_getFurthest, Timer_fires, Select_timer]" 3 4
      "\<lparr>queue = \<lparr>rounds = [], c = [0]\<rparr>, caller = Returned None (Some timeOutError),
         helper = InWait, sig = False, timer = False\<rparr>" None "Some timeOutError"]
    e n r c
  have t: "Timer_fires \<in> set [Helper_runs, Insert_call \<lparr>ID = 1, State = 5, Timestamps = []\<rparr>,
                      Caller_getFurthest, Timer_fires, Select_timer]"
    by simp
  from GetUpcomingRealtime_timeout_error [of
      "\<lparr>rounds = [\<lparr>ID = 1, State = 3, Timestamps = [0, 0, 0, 0, 10]\<rparr>], c = []\<rparr>" "[]" 3 4]
    ne
  have x: "exec 3 4 Caller_getFurthest (GetUpcomingRealtime_start
     \<lparr>rounds = [\<lparr>ID = 1, State = 3, Timestamps = [0, 0, 0, 0, 10]\<rparr>], c = []\<rparr>) =
   Some \<lparr>queue = \<lparr>rounds = [\<lparr>ID = 1, State = 3, Timestamps = [0, 0, 0, 0, 10]\<rparr>], c = []\<rparr>,
         caller = Returned (Some \<lparr>ID = 1, State = 3, Timestamps = [0, 0, 0, 0, 10]\<rparr>) None,
         helper = AtLock, sig = False, timer = False\<rparr>"
    by (simp add: GetUpcomingRealtime_start_def)
  have n': "\<not> inserts_queued 3 (Insert_call \<lparr>ID = 1, State = 5, Timestamps = []\<rparr>)"
    by simp
  from e n' r t ne x show ?thesis by blast
qed




text \<open>
  Once the helper goroutine has sent its one signal and the caller has used
  it up, nothing can wake the caller again: whatever is inserted from then
  on, the call stays in its \<open>select\<close> until the timer case ends it.
\<close>

lemma exec_no_second_wakeup:
  assumes "exec Q RT x s = Some s'" "helper s = Sent" "\<not> sig s"
    "caller s = AtSelect \<or> caller s = Returned None (Some timeOutError)"
  shows "helper s' = Sent \<and> \<not> sig s' \<and>
         (caller s' = AtSelect \<or> caller s' = Returned None (Some timeOutError))"
proof (cases x)
  case (Insert_call r)
  with assms show ?thesis by (auto split: option.splits if_splits)
next
  case Timer_fires
  with assms show ?thesis by auto
next
  case Helper_runs
  with assms show ?thesis by (auto simp: helper_step_def split: if_splits)
next
  case Caller_getFurthest
  with assms show ?thesis by (auto simp: caller_getFurthest_def split: if_splits)
next
  case Select_timer
  with assms show ?thesis by (auto simp: select_timer_def split: if_splits)
next
  case Select_sig
  with assms show ?thesis by (auto simp: select_sig_def split: if_splits)
qed

lemma run_no_second_wakeup:
  "run Q RT es s = Some s' \<Longrightarrow> helper s = Sent \<Longrightarrow> \<not> sig s \<Longrightarrow>
   caller s = AtSelect \<or> caller s = Returned None (Some timeOutError) \<Longrightarrow>
   caller s' = AtSelect \<or> caller s' = Returned None (Some timeOutError)"
proof (induction es arbitrary: s)
  case Nil
  then show ?case by simp
next
  case (Cons x es)
  from Cons.prems(1) obtain s1 where s1: "exec Q RT x s = Some s1" "run Q RT es s1 = Some s'"
    by (auto split: option.splits)
  from exec_no_second_wakeup [OF s1(1) Cons.prems(2,3,4)]
  have "helper s1 = Sent" "\<not> sig s1"
    "caller s1 = AtSelect \<or> caller s1 = Returned None (Some timeOutError)"
    by simp_all
  from Cons.IH [OF s1(2) this] show ?case .
qed

text \<open>
  C6 fails on the code.  First schedule: the call is parked in its \<open>select\<close>
  with the helper waiting on the condition variable; round 1 is inserted and
  then taken out again before the caller runs, so the one signal the helper
  ever sends is used up on an empty queue; round 2 is inserted next, its
  broadcast finds nobody waiting, and the call times out with round 2 in the
  queue.  Second schedule: the round is inserted after the caller's first
  check but before the helper has reached \<open>Wait\<close>; the broadcast is missed,
  the helper parks for good, and the call times out with the round in the
  queue.
\<close>

theorem GetUpcomingRealtime_lost_wakeup:
  "run 3 4
     [Caller_getFurthest, Helper_runs,
      Insert_call \<lparr>ID = 1, State = 3, Timestamps = [0, 0, 0, 0, 10]\<rparr>,
      Insert_call \<lparr>ID = 1, State = 4, Timestamps = [0, 0, 0, 0, 10]\<rparr>,
      Helper_runs, Select_sig,
      Insert_call \<lparr>ID = 2, State = 3, Timestamps = [0, 0, 0, 0, 20]\<rparr>,
      Helper_runs, Select_sig, Timer_fires, Select_sig, Select_timer]
     (GetUpcomingRealtime_start NewWaitingRounds) =
   Some \<lparr>queue = \<lparr>rounds = [\<lparr>ID = 2, State = 3, Timestamps = [0, 0, 0, 0, 20]\<rparr>], c = []\<rparr>,
         caller = Returned None (Some timeOutError), helper = Sent, sig = False,
         timer = False\<rparr> \<and>
   run 3 4
     [Caller_getFurthest,
      Insert_call \<lparr>ID = 1, State = 3, Timestamps = [0, 0, 0, 0, 10]\<rparr>,
      Helper_runs, Select_sig, Helper_runs, Select_sig, Timer_fires, Select_sig, Select_timer]
     (GetUpcomingRealtime_start NewWaitingRounds) =
   Some \<lparr>queue = \<lparr>rounds = [\<lparr>ID = 1, State = 3, Timestamps = [0, 0, 0, 0, 10]\<rparr>], c = [0]\<rparr>,
         caller = Returned None (Some timeOutError), helper = InWait, sig = False,
         timer = False\<rparr>"
  by (simp add: GetUpcomingRealtime_start_def NewWaitingRounds_def caller_getFurthest_def
      getFurthest_def Len_def helper_step_def Insert_def Broadcast_def remove_def
      select_timer_def select_sig_def)

section \<open>Properties of RoundEvents\<close>

lemma register_states_Some:
  "\<forall>s \<in> set ss. unat s < N \<Longrightarrow>
   \<exists>arr'. register_states N e ss arr = Some arr' \<and> length arr' = length arr \<and>
     (\<forall>i < length arr. set (arr' ! i) = set (arr ! i) \<union> (if i \<in> unat ` set ss then {e} else {}) \<and>
        (distinct (arr ! i) \<longrightarrow> distinct (arr' ! i)))"
proof (induction ss arbitrary: arr)
  case Nil
  then show ?case by simp
next
  case (Cons s ss)
  let ?arr1 = "arr[unat s := List.insert e (arr ! unat s)]"
  from Cons.prems have v: "unat s < N" and vs: "\<forall>s \<in> set ss. unat s < N" by simp_all
  from Cons.IH [OF vs, of ?arr1] obtain arr' where
    h: "register_states N e ss ?arr1 = Some arr'" "length arr' = length ?arr1"
       "\<forall>i < length ?arr1. set (arr' ! i) = set (?arr1 ! i) \<union> (if i \<in> unat ` set ss then {e} else {}) \<and>
          (distinct (?arr1 ! i) \<longrightarrow> distinct (arr' ! i))"
    by blast
  have "\<forall>i < length arr. set (arr' ! i) = set (arr ! i) \<union> (if i \<in> unat ` set (s # ss) then {e} else {}) \<and>
        (distinct (arr ! i) \<longrightarrow> distinct (arr' ! i))"
  proof (intro allI impI)
    fix i assume i: "i < length arr"
    with h(3) have hi: "set (arr' ! i) = set (?arr1 ! i) \<union> (if i \<in> unat ` set ss then {e} else {})"
      "distinct (?arr1 ! i) \<longrightarrow> distinct (arr' ! i)"
      by simp_all
    show "set (arr' ! i) = set (arr ! i) \<union> (if i \<in> unat ` set (s # ss) then {e} else {}) \<and>
        (distinct (arr ! i) \<longrightarrow> distinct (arr' ! i))"
    proof (cases "i = unat s")
      case True
      with i hi show ?thesis by auto
    next
      case False
      with i hi show ?thesis by auto
    qed
  qed
  with h(1,2) v show ?case by simp
qed

lemma register_states_valid:
  "register_states N e ss arr = Some arr' \<Longrightarrow> \<forall>s \<in> set ss. unat s < N"
  by (induction ss arbitrary: arr) (auto split: if_splits)

lemma delete_states_frame:
  "delete_states N rid e ss cb = Some cb' \<Longrightarrow>
   (\<forall>rid'. rid' \<noteq> rid \<longrightarrow> cb' rid' = cb rid') \<and> (cb rid = None \<longrightarrow> cb' rid = None)"
proof (induction ss arbitrary: cb)
  case Nil
  then show ?case by simp
next
  case (Cons s ss)
  let ?cb1 = "case cb rid of None \<Rightarrow> cb | Some arr \<Rightarrow> cb(rid \<mapsto> arr[unat s := removeAll e (arr ! unat s)])"
  from Cons.prems have "delete_states N rid e ss ?cb1 = Some cb'"
    by (simp split: if_splits)
  from Cons.IH [OF this] show ?case by (auto split: option.splits)
qed

lemma delete_states_Some:
  "\<forall>s \<in> set ss. unat s < N \<Longrightarrow> cb rid = Some arr \<Longrightarrow>
   \<exists>cb' arr'. delete_states N rid e ss cb = Some cb' \<and> cb' rid = Some arr' \<and>
     length arr' = length arr \<and>
     (\<forall>i < length arr. arr' ! i = (if i \<in> unat ` set ss then removeAll e (arr ! i) else arr ! i))"
proof (induction ss arbitrary: cb arr)
  case Nil
  then show ?case by simp
next
  case (Cons s ss)
  let ?arr1 = "arr[unat s := removeAll e (arr ! unat s)]"
  let ?cb1 = "cb(rid \<mapsto> ?arr1)"
  from Cons.prems have v: "unat s < N" and vs: "\<forall>s \<in> set ss. unat s < N" by simp_all
  have c1: "?cb1 rid = Some ?arr1" by simp
  from Cons.IH [of ?cb1 ?arr1, OF vs c1] obtain cb' arr' where
    h: "delete_states N rid e ss ?cb1 = Some cb'" "cb' rid = Some arr'"
       "length arr' = length ?arr1"
       "\<forall>i < length ?arr1. arr' ! i = (if i \<in> unat ` set ss then removeAll e (?arr1 ! i) else ?arr1 ! i)"
    by blast
  have "\<forall>i < length arr. arr' ! i = (if i \<in> unat ` set (s # ss) then removeAll e (arr ! i) else arr ! i)"
  proof (intro allI impI)
    fix i assume i: "i < length arr"
    with h(4) have hi: "arr' ! i = (if i \<in> unat ` set ss then removeAll e (?arr1 ! i) else ?arr1 ! i)"
      by simp
    show "arr' ! i = (if i \<in> unat ` set (s # ss) then removeAll e (arr ! i) else arr ! i)"
    proof (cases "i = unat s")
      case True
      with i hi show ?thesis by auto
    next
      case False
      with i hi show ?thesis by auto
    qed
  qed
  moreover from h(1) v Cons.prems(2)
  have "delete_states N rid e (s # ss) cb = Some cb'" by simp
  ultimately show ?case using h(2,3) by auto
qed

lemma delete_states_absent:
  "\<forall>s \<in> set ss. unat s < N \<Longrightarrow> cb rid = None \<Longrightarrow> delete_states N rid e ss cb = Some cb"
  by (induction ss) auto

lemma remove_frame:
  assumes "RoundEvents_remove N rid e r = Returns r'"
  shows "objects r' = objects r \<and> allocated r' = allocated r \<and>
         closure_rid r' = closure_rid r \<and> selecting r' = selecting r \<and>
         registering r' = registering r \<and>
         removes r' = removes r \<and> invoked r' = invoked r \<and>
         (\<forall>rid'. rid' \<noteq> rid \<longrightarrow> callbacks r' rid' = callbacks r rid') \<and>
         (\<forall>arr. callbacks r' rid = Some arr \<longrightarrow> (\<exists>b \<in> set arr. b \<noteq> []))"
proof -
  from assms obtain cb where
    cb: "delete_states N rid e (states (objects r e)) (callbacks r) = Some cb"
    and r': "r' = r\<lparr>callbacks :=
            (case cb rid of
               None \<Rightarrow> cb
             | Some arr \<Rightarrow> if list_all (\<lambda>b. length b = 0) arr then cb(rid := None) else cb)\<rparr>"
    by (auto simp: RoundEvents_remove_def split: option.splits)
  from delete_states_frame [OF cb]
  have f: "\<forall>rid'. rid' \<noteq> rid \<longrightarrow> cb rid' = callbacks r rid'" by simp
  have "\<forall>arr. callbacks r' rid = Some arr \<longrightarrow> (\<exists>b \<in> set arr. b \<noteq> [])"
    unfolding r' by (auto simp: list_all_iff split: option.splits if_splits)
  moreover have "\<forall>rid'. rid' \<noteq> rid \<longrightarrow> callbacks r' rid' = callbacks r rid'"
    unfolding r' using f by (auto split: option.splits)
  ultimately show ?thesis unfolding r' by simp
qed

lemma remove_valid_None:
  assumes "\<forall>s \<in> set (states (objects r e)). unat s < N" "callbacks r rid = None"
  shows "\<exists>r'. RoundEvents_remove N rid e r = Returns r' \<and> callbacks r' rid = None"
proof -
  from delete_states_absent [of "states (objects r e)" N "callbacks r" rid e, OF assms]
  have "delete_states N rid e (states (objects r e)) (callbacks r) = Some (callbacks r)" .
  with assms(2) show ?thesis by (simp add: RoundEvents_remove_def)
qed

lemma remove_valid_Some:
  assumes "\<forall>s \<in> set (states (objects r e)). unat s < N" "callbacks r rid = Some arr"
  shows "\<exists>r' arr'. RoundEvents_remove N rid e r = Returns r' \<and> length arr' = length arr \<and>
           (\<forall>i < length arr. arr' ! i =
              (if i \<in> unat ` set (states (objects r e)) then removeAll e (arr ! i)
               else arr ! i)) \<and>
           (callbacks r' rid = None \<or> callbacks r' rid = Some arr')"
proof -
  from delete_states_Some [of "states (objects r e)" N "callbacks r" rid arr e, OF assms]
  obtain cb' arr' where
    h: "delete_states N rid e (states (objects r e)) (callbacks r) = Some cb'"
       "cb' rid = Some arr'" "length arr' = length arr"
       "\<forall>i < length arr. arr' ! i =
          (if i \<in> unat ` set (states (objects r e)) then removeAll e (arr ! i) else arr ! i)"
    by blast
  let ?r' = "r\<lparr>callbacks := if list_all (\<lambda>b. length b = 0) arr' then cb'(rid := None) else cb'\<rparr>"
  from h(1,2) have "RoundEvents_remove N rid e r = Returns ?r'"
    by (simp add: RoundEvents_remove_def)
  moreover from h(2) have "callbacks ?r' rid = None \<or> callbacks ?r' rid = Some arr'"
    by simp
  ultimately show ?thesis using h(3,4) by blast
qed

lemma send_all_Some:
  "distinct es \<Longrightarrow> \<forall>e \<in> set es. signal (h e) = None \<Longrightarrow>
   \<exists>h'. send_all ri es h = Some h' \<and>
     (\<forall>e. h' e = (if e \<in> set es then (h e)\<lparr>signal := Some ri\<rparr> else h e))"
proof (induction es arbitrary: h)
  case Nil
  then show ?case by simp
next
  case (Cons e es)
  let ?h1 = "h(e := (h e)\<lparr>signal := Some ri\<rparr>)"
  from Cons.prems have d: "distinct es" and n: "e \<notin> set es"
    and e: "signal (h e) = None" and rest: "\<forall>x \<in> set es. signal (h x) = None"
    by simp_all
  from rest n have "\<forall>x \<in> set es. signal (?h1 x) = None" by auto
  from Cons.IH [OF d this] obtain h' where
    h': "send_all ri es ?h1 = Some h'"
        "\<forall>x. h' x = (if x \<in> set es then (?h1 x)\<lparr>signal := Some ri\<rparr> else ?h1 x)"
    by blast
  have "\<forall>x. h' x = (if x \<in> set (e # es) then (h x)\<lparr>signal := Some ri\<rparr> else h x)"
  proof
    fix x
    show "h' x = (if x \<in> set (e # es) then (h x)\<lparr>signal := Some ri\<rparr> else h x)"
    proof (cases "x = e")
      case True
      with h'(2) n show ?thesis by simp
    next
      case False
      with h'(2) show ?thesis by simp
    qed
  qed
  moreover from h'(1) e have "send_all ri (e # es) h = Some h'" by simp
  ultimately show ?case by blast
qed

lemma send_all_states:
  "send_all ri es h = Some h' \<Longrightarrow> states (h' x) = states (h x)"
  by (induction es arbitrary: h) (auto split: option.splits if_splits)

lemma remove_all_frame:
  "remove_all N rid es r = Returns r' \<Longrightarrow>
   objects r' = objects r \<and> allocated r' = allocated r \<and>
   closure_rid r' = closure_rid r \<and> selecting r' = selecting r \<and>
   registering r' = registering r \<and>
   removes r' = removes r \<and> invoked r' = invoked r \<and>
   (\<forall>rid'. rid' \<noteq> rid \<longrightarrow> callbacks r' rid' = callbacks r rid') \<and>
   (es \<noteq> [] \<longrightarrow> (\<forall>arr. callbacks r' rid = Some arr \<longrightarrow> (\<exists>b \<in> set arr. b \<noteq> [])))"
proof (induction es arbitrary: r)
  case Nil
  then show ?case by simp
next
  case (Cons e es)
  from Cons.prems obtain r1 where r1: "RoundEvents_remove N rid e r = Returns r1"
    and rest: "remove_all N rid es r1 = Returns r'"
    by (auto split: outcome.splits)
  note f1 = remove_frame [OF r1]
  note f2 = Cons.IH [OF rest]
  show ?case
  proof (cases "es = []")
    case True
    with rest have "r' = r1" by simp
    with f1 show ?thesis by simp
  next
    case False
    with f1 f2 show ?thesis by simp
  qed
qed

lemma remove_all_empties:
  assumes "k < N"
  shows "\<forall>e \<in> set es. (\<forall>s \<in> set (states (objects r e)). unat s < N) \<and>
            k \<in> unat ` set (states (objects r e)) \<Longrightarrow>
         callbacks r rid = None \<or>
           (\<exists>arr. callbacks r rid = Some arr \<and> length arr = N \<and> set (arr ! k) \<subseteq> set es) \<Longrightarrow>
         \<exists>r'. remove_all N rid es r = Returns r' \<and>
           (callbacks r' rid = None \<or>
            (\<exists>arr'. callbacks r' rid = Some arr' \<and> length arr' = N \<and> arr' ! k = []))"
proof (induction es arbitrary: r)
  case Nil
  then show ?case by auto
next
  case (Cons e es)
  from Cons.prems(1) have ve: "\<forall>s \<in> set (states (objects r e)). unat s < N"
    and ke: "k \<in> unat ` set (states (objects r e))"
    by simp_all
  have "\<exists>r1. RoundEvents_remove N rid e r = Returns r1 \<and>
      (callbacks r1 rid = None \<or>
       (\<exists>arr. callbacks r1 rid = Some arr \<and> length arr = N \<and> set (arr ! k) \<subseteq> set es))"
  proof (cases "callbacks r rid")
    case None
    from remove_valid_None [OF ve None] show ?thesis by blast
  next
    case (Some arr)
    with Cons.prems(2) have la: "length arr = N" and sub: "set (arr ! k) \<subseteq> set (e # es)"
      by simp_all
    from remove_valid_Some [OF ve Some] obtain r1 arr' where
      h: "RoundEvents_remove N rid e r = Returns r1" "length arr' = length arr"
         "\<forall>i < length arr. arr' ! i =
              (if i \<in> unat ` set (states (objects r e)) then removeAll e (arr ! i)
               else arr ! i)"
         "callbacks r1 rid = None \<or> callbacks r1 rid = Some arr'"
      by blast
    from h(3) la assms ke have "arr' ! k = removeAll e (arr ! k)" by simp
    with sub have "set (arr' ! k) \<subseteq> set es" by auto
    with h(1,2,4) la show ?thesis by auto
  qed
  then obtain r1 where r1: "RoundEvents_remove N rid e r = Returns r1"
    and p2: "callbacks r1 rid = None \<or>
       (\<exists>arr. callbacks r1 rid = Some arr \<and> length arr = N \<and> set (arr ! k) \<subseteq> set es)"
    by blast
  from remove_frame [OF r1] have o: "objects r1 = objects r" by simp
  with Cons.prems(1) have p1: "\<forall>x \<in> set es. (\<forall>s \<in> set (states (objects r1 x)). unat s < N) \<and>
            k \<in> unat ` set (states (objects r1 x))"
    by simp
  from Cons.IH [OF p1 p2] r1 show ?case by simp
qed

lemma AddRoundEvent_register_Returns:
  assumes "\<forall>s \<in> set sts. unat s < N"
    and "\<forall>arr. callbacks r rid = Some arr \<longrightarrow> length arr = N"
    and "registering r e" "closure_rid r e = rid" "states (objects r e) = sts"
  shows "\<exists>r1 arr'. AddRoundEvent_register N rid sts e r = Returns r1 \<and>
           callbacks r1 rid = Some arr' \<and>
           (\<forall>rid'. rid' \<noteq> rid \<longrightarrow> callbacks r1 rid' = callbacks r rid') \<and>
           objects r1 = objects r \<and> allocated r1 = allocated r \<and>
           closure_rid r1 = closure_rid r \<and> selecting r1 = selecting r \<and>
           registering r1 = (registering r)(e := False) \<and>
           removes r1 = removes r \<and> invoked r1 = invoked r \<and> length arr' = N \<and>
           (\<forall>i < N. set (arr' ! i) =
                (case callbacks r rid of None \<Rightarrow> {} | Some arr \<Rightarrow> set (arr ! i)) \<union>
                (if i \<in> unat ` set sts then {e} else {}) \<and>
              ((case callbacks r rid of None \<Rightarrow> True | Some arr \<Rightarrow> distinct (arr ! i)) \<longrightarrow>
                 distinct (arr' ! i)))"
proof -
  let ?arr0 = "case callbacks r rid of None \<Rightarrow> replicate N [] | Some arr \<Rightarrow> arr"
  from assms(2) have l0: "length ?arr0 = N" by (simp split: option.splits)
  from register_states_Some [OF assms(1), of e ?arr0] obtain arr' where
    h: "register_states N e sts ?arr0 = Some arr'" "length arr' = length ?arr0"
       "\<forall>i < length ?arr0. set (arr' ! i) =
           set (?arr0 ! i) \<union> (if i \<in> unat ` set sts then {e} else {}) \<and>
           (distinct (?arr0 ! i) \<longrightarrow> distinct (arr' ! i))"
    by blast
  let ?r1 = "r\<lparr>callbacks := (callbacks r)(rid \<mapsto> arr'),
               registering := (registering r)(e := False)\<rparr>"
  from h(1) assms(3,4,5) have a: "AddRoundEvent_register N rid sts e r = Returns ?r1"
    by (simp add: AddRoundEvent_register_def)
  have b: "\<forall>i < N. set (arr' ! i) =
                (case callbacks r rid of None \<Rightarrow> {} | Some arr \<Rightarrow> set (arr ! i)) \<union>
                (if i \<in> unat ` set sts then {e} else {}) \<and>
              ((case callbacks r rid of None \<Rightarrow> True | Some arr \<Rightarrow> distinct (arr ! i)) \<longrightarrow>
                 distinct (arr' ! i))"
  proof (intro allI impI)
    fix i assume i: "i < N"
    with h(3) l0 have "set (arr' ! i) =
           set (?arr0 ! i) \<union> (if i \<in> unat ` set sts then {e} else {}) \<and>
           (distinct (?arr0 ! i) \<longrightarrow> distinct (arr' ! i))"
      by simp
    with i show "set (arr' ! i) =
                (case callbacks r rid of None \<Rightarrow> {} | Some arr \<Rightarrow> set (arr ! i)) \<union>
                (if i \<in> unat ` set sts then {e} else {}) \<and>
              ((case callbacks r rid of None \<Rightarrow> True | Some arr \<Rightarrow> distinct (arr ! i)) \<longrightarrow>
                 distinct (arr' ! i))"
      by (cases "callbacks r rid") simp_all
  qed
  have "callbacks ?r1 rid = Some arr' \<and>
           (\<forall>rid'. rid' \<noteq> rid \<longrightarrow> callbacks ?r1 rid' = callbacks r rid') \<and>
           objects ?r1 = objects r \<and> allocated ?r1 = allocated r \<and>
           closure_rid ?r1 = closure_rid r \<and> selecting ?r1 = selecting r \<and>
           registering ?r1 = (registering r)(e := False) \<and>
           removes ?r1 = removes r \<and> invoked ?r1 = invoked r"
    by simp
  moreover from h(2) l0 have "length arr' = N" by simp
  ultimately show ?thesis using a b by blast
qed

lemma Trigger_frame:
  assumes "TriggerRoundEvent N ri r = Returns r'"
  shows "allocated r' = allocated r \<and> closure_rid r' = closure_rid r \<and>
         selecting r' = selecting r \<and> registering r' = registering r \<and>
         removes r' = removes r \<and> invoked r' = invoked r"
proof (cases "callbacks r (ID ri)")
  case None
  with assms show ?thesis by (simp add: TriggerRoundEvent_def)
next
  case (Some arr)
  show ?thesis
  proof (cases "unat (State ri) < N \<and> length (arr ! unat (State ri)) \<noteq> 0")
    case False
    with assms Some have "r' = r"
      by (auto simp: TriggerRoundEvent_def Let_def split: if_splits)
    then show ?thesis by simp
  next
    case True
    with assms Some obtain h where
      "remove_all N (ID ri) (arr ! unat (State ri)) (r\<lparr>objects := h\<rparr>) = Returns r'"
      by (auto simp: TriggerRoundEvent_def Let_def split: option.splits)
    from remove_all_frame [OF this] show ?thesis by simp
  qed
qed

lemma Remove_runs_frame:
  assumes "Remove_runs N rid e r = Returns r'"
  shows "allocated r' = allocated r \<and> selecting r' = selecting r \<and> invoked r' = invoked r \<and>
         closure_rid r' = closure_rid r \<and> registering r' = registering r \<and>
         objects r' = objects r"
proof (cases "(rid, e) \<in> set (removes r)")
  case True
  with assms have "RoundEvents_remove N rid e (r\<lparr>removes := remove1 (rid, e) (removes r)\<rparr>) = Returns r'"
    by (simp add: Remove_runs_def RoundEvents_Remove_def)
  from remove_frame [OF this] show ?thesis by simp
next
  case False
  with assms show ?thesis by (simp add: Remove_runs_def)
qed

lemma AddRoundEvent_start_frame:
  "callbacks (AddRoundEvent_start rid sts r) = callbacks r \<and>
   objects (AddRoundEvent_start rid sts r) =
     (objects r)(allocated r := \<lparr>states = sts, signal = None\<rparr>) \<and>
   allocated (AddRoundEvent_start rid sts r) = Suc (allocated r) \<and>
   closure_rid (AddRoundEvent_start rid sts r) = (closure_rid r)(allocated r := rid) \<and>
   selecting (AddRoundEvent_start rid sts r) = (selecting r)(allocated r := True) \<and>
   registering (AddRoundEvent_start rid sts r) = (registering r)(allocated r := True) \<and>
   removes (AddRoundEvent_start rid sts r) = removes r \<and>
   invoked (AddRoundEvent_start rid sts r) = invoked r"
  by (simp add: AddRoundEvent_start_def Let_def)

lemma AddRoundEvent_register_frame:
  assumes "AddRoundEvent_register N rid sts e r = Returns r'"
  shows "objects r' = objects r \<and> allocated r' = allocated r \<and>
         closure_rid r' = closure_rid r \<and> selecting r' = selecting r \<and>
         removes r' = removes r \<and> invoked r' = invoked r \<and>
         (\<forall>x. registering r' x \<longrightarrow> registering r x) \<and>
         (\<forall>x. x \<noteq> e \<longrightarrow> registering r' x = registering r x) \<and>
         (\<forall>rid'. rid' \<noteq> rid \<longrightarrow> callbacks r' rid' = callbacks r rid')"
  using assms by (auto simp: AddRoundEvent_register_def split: option.splits if_splits)

lemma perform_finished:
  assumes "perform N x r = Returns r'" "e < allocated r" "\<not> selecting r e"
  shows "e < allocated r' \<and> \<not> selecting r' e \<and> calls_of e r' = calls_of e r"
proof (cases x)
  case (Start rid sts)
  with assms(1) have "r' = AddRoundEvent_start rid sts r" by simp
  with AddRoundEvent_start_frame [of rid sts r] assms(2,3) show ?thesis
    by (simp add: calls_of_def)
next
  case (Register rid sts e')
  with assms(1) have "AddRoundEvent_register N rid sts e' r = Returns r'" by simp
  from AddRoundEvent_register_frame [OF this] assms(2,3) show ?thesis
    by (simp add: calls_of_def)
next
  case (Trigger ri)
  with assms(1) have "TriggerRoundEvent N ri r = Returns r'" by simp
  from Trigger_frame [OF this] assms(2,3) show ?thesis
    by (simp add: calls_of_def)
next
  case (Receive e')
  with assms show ?thesis
    by (auto simp: Signal_received_def calls_of_def split: option.splits if_splits)
next
  case (Timeout e')
  with assms show ?thesis
    by (auto simp: Timeout_elapsed_def calls_of_def split: if_splits)
next
  case (Cleanup rid e')
  with assms(1) have "Remove_runs N rid e' r = Returns r'" by simp
  from Remove_runs_frame [OF this] assms(2,3) show ?thesis
    by (simp add: calls_of_def)
qed

lemma perform_all_finished:
  "perform_all N xs r = Returns r' \<Longrightarrow> e < allocated r \<Longrightarrow> \<not> selecting r e \<Longrightarrow>
   calls_of e r' = calls_of e r"
proof (induction xs arbitrary: r)
  case Nil
  then show ?case by simp
next
  case (Cons x xs)
  from Cons.prems(1) obtain r1 where r1: "perform N x r = Returns r1"
    and rest: "perform_all N xs r1 = Returns r'"
    by (auto split: outcome.splits)
  from perform_finished [OF r1 Cons.prems(2,3)]
  have "e < allocated r1" "\<not> selecting r1 e" "calls_of e r1 = calls_of e r"
    by simp_all
  with Cons.IH [OF rest] show ?case by simp
qed

lemma Trigger_nothing:
  assumes "callbacks r (ID ri) = None \<or>
           (\<exists>arr. callbacks r (ID ri) = Some arr \<and> arr ! unat (State ri) = [])"
    and "unat (State ri) < N"
  shows "TriggerRoundEvent N ri r = Returns r"
  using assms by (auto simp: TriggerRoundEvent_def Let_def)

lemma remove_from:
  assumes "\<forall>s \<in> set (states (objects r e)). unat s < N"
  shows "\<exists>r1. RoundEvents_remove N rid e r = Returns r1 \<and>
           (\<forall>arr'. callbacks r1 rid = Some arr' \<longrightarrow>
              (\<exists>arr. callbacks r rid = Some arr \<and> length arr' = length arr \<and>
                 (\<forall>i < length arr. arr' ! i =
                    (if i \<in> unat ` set (states (objects r e)) then removeAll e (arr ! i)
                     else arr ! i))))"
proof (cases "callbacks r rid")
  case None
  from remove_valid_None [OF assms None] show ?thesis by auto
next
  case (Some arr)
  from remove_valid_Some [OF assms Some] obtain r1 arr' where
    h: "RoundEvents_remove N rid e r = Returns r1" "length arr' = length arr"
       "\<forall>i < length arr. arr' ! i =
              (if i \<in> unat ` set (states (objects r e)) then removeAll e (arr ! i)
               else arr ! i)"
       "callbacks r1 rid = None \<or> callbacks r1 rid = Some arr'"
    by blast
  from h(2,3,4) Some have "\<forall>arr''. callbacks r1 rid = Some arr'' \<longrightarrow>
              (\<exists>arr. callbacks r rid = Some arr \<and> length arr'' = length arr \<and>
                 (\<forall>i < length arr. arr'' ! i =
                    (if i \<in> unat ` set (states (objects r e)) then removeAll e (arr ! i)
                     else arr ! i)))"
    by auto
  with h(1) show ?thesis by blast
qed

lemma remove_all_absent:
  "\<forall>e \<in> set es. \<forall>s \<in> set (states (objects r e)). unat s < N \<Longrightarrow>
   (e0 \<in> set es \<and>
      (\<forall>arr. callbacks r rid = Some arr \<longrightarrow>
         (\<forall>i < length arr. e0 \<in> set (arr ! i) \<longrightarrow> i \<in> unat ` set (states (objects r e0))))) \<or>
   (\<forall>arr. callbacks r rid = Some arr \<longrightarrow> (\<forall>i < length arr. e0 \<notin> set (arr ! i))) \<Longrightarrow>
   remove_all N rid es r = Returns r' \<Longrightarrow>
   \<forall>arr. callbacks r' rid = Some arr \<longrightarrow> (\<forall>i < length arr. e0 \<notin> set (arr ! i))"
proof (induction es arbitrary: r)
  case Nil
  then show ?case by simp
next
  case (Cons e es)
  from Cons.prems(1) have ve: "\<forall>s \<in> set (states (objects r e)). unat s < N" by simp
  from remove_from [OF ve, of rid] obtain r1 where
    r1: "RoundEvents_remove N rid e r = Returns r1"
    and from_r: "\<forall>arr'. callbacks r1 rid = Some arr' \<longrightarrow>
              (\<exists>arr. callbacks r rid = Some arr \<and> length arr' = length arr \<and>
                 (\<forall>i < length arr. arr' ! i =
                    (if i \<in> unat ` set (states (objects r e)) then removeAll e (arr ! i)
                     else arr ! i)))"
    by blast
  from remove_frame [OF r1] have o: "objects r1 = objects r" by simp
  from Cons.prems(3) r1 have rest: "remove_all N rid es r1 = Returns r'" by simp
  from Cons.prems(1) o have v1: "\<forall>x \<in> set es. \<forall>s \<in> set (states (objects r1 x)). unat s < N"
    by simp
  have sub: "\<And>arr' i. callbacks r1 rid = Some arr' \<Longrightarrow> i < length arr' \<Longrightarrow>
     \<exists>arr. callbacks r rid = Some arr \<and> i < length arr \<and> set (arr' ! i) \<subseteq> set (arr ! i) \<and>
       (i \<in> unat ` set (states (objects r e)) \<longrightarrow> e \<notin> set (arr' ! i))"
  proof -
    fix arr' i assume a: "callbacks r1 rid = Some arr'" and i: "i < length arr'"
    with from_r obtain arr where arr: "callbacks r rid = Some arr" "length arr' = length arr"
      "\<forall>i < length arr. arr' ! i =
                    (if i \<in> unat ` set (states (objects r e)) then removeAll e (arr ! i)
                     else arr ! i)"
      by blast
    from arr(2,3) i have "arr' ! i =
                    (if i \<in> unat ` set (states (objects r e)) then removeAll e (arr ! i)
                     else arr ! i)"
      by simp
    then have "set (arr' ! i) \<subseteq> set (arr ! i) \<and>
       (i \<in> unat ` set (states (objects r e)) \<longrightarrow> e \<notin> set (arr' ! i))"
      by (auto split: if_splits)
    with arr(1,2) i show "\<exists>arr. callbacks r rid = Some arr \<and> i < length arr \<and>
       set (arr' ! i) \<subseteq> set (arr ! i) \<and>
       (i \<in> unat ` set (states (objects r e)) \<longrightarrow> e \<notin> set (arr' ! i))"
      by auto
  qed
  have "(e0 \<in> set es \<and>
      (\<forall>arr. callbacks r1 rid = Some arr \<longrightarrow>
         (\<forall>i < length arr. e0 \<in> set (arr ! i) \<longrightarrow> i \<in> unat ` set (states (objects r1 e0))))) \<or>
   (\<forall>arr. callbacks r1 rid = Some arr \<longrightarrow> (\<forall>i < length arr. e0 \<notin> set (arr ! i)))"
  proof (cases "\<forall>arr. callbacks r rid = Some arr \<longrightarrow> (\<forall>i < length arr. e0 \<notin> set (arr ! i))")
    case True
    have "\<forall>arr. callbacks r1 rid = Some arr \<longrightarrow> (\<forall>i < length arr. e0 \<notin> set (arr ! i))"
    proof (intro allI impI)
      fix arr' i assume "callbacks r1 rid = Some arr'" "i < length arr'"
      from sub [OF this] True show "e0 \<notin> set (arr' ! i)" by blast
    qed
    then show ?thesis by blast
  next
    case False
    with Cons.prems(2) have in_es: "e0 \<in> set (e # es)"
      and only: "\<forall>arr. callbacks r rid = Some arr \<longrightarrow>
         (\<forall>i < length arr. e0 \<in> set (arr ! i) \<longrightarrow> i \<in> unat ` set (states (objects r e0)))"
      by blast+
    show ?thesis
    proof (cases "e = e0")
      case True
      have "\<forall>arr. callbacks r1 rid = Some arr \<longrightarrow> (\<forall>i < length arr. e0 \<notin> set (arr ! i))"
      proof (intro allI impI)
        fix arr' i assume "callbacks r1 rid = Some arr'" "i < length arr'"
        from sub [OF this] only True show "e0 \<notin> set (arr' ! i)" by blast
      qed
      then show ?thesis by blast
    next
      case False
      with in_es have "e0 \<in> set es" by simp
      moreover have "\<forall>arr. callbacks r1 rid = Some arr \<longrightarrow>
         (\<forall>i < length arr. e0 \<in> set (arr ! i) \<longrightarrow> i \<in> unat ` set (states (objects r1 e0)))"
      proof (intro allI impI)
        fix arr' i assume "callbacks r1 rid = Some arr'" "i < length arr'" "e0 \<in> set (arr' ! i)"
        with sub [OF this(1,2)] only o show "i \<in> unat ` set (states (objects r1 e0))"
          by auto
      qed
      ultimately show ?thesis by blast
    qed
  qed
  from Cons.IH [OF v1 this rest] show ?case .
qed

lemma Trigger_unfold:
  assumes "callbacks r (ID ri) = Some arr" "unat (State ri) < N"
    "arr ! unat (State ri) \<noteq> []" "distinct (arr ! unat (State ri))"
    "\<forall>e \<in> set (arr ! unat (State ri)). signal (objects r e) = None"
  shows "\<exists>h. (\<forall>e. h e = (if e \<in> set (arr ! unat (State ri))
                         then (objects r e)\<lparr>signal := Some ri\<rparr> else objects r e)) \<and>
           TriggerRoundEvent N ri r =
           remove_all N (ID ri) (arr ! unat (State ri)) (r\<lparr>objects := h\<rparr>)"
proof -
  from send_all_Some [OF assms(4,5), of ri] obtain h where
    h: "send_all ri (arr ! unat (State ri)) (objects r) = Some h"
       "\<forall>e. h e = (if e \<in> set (arr ! unat (State ri))
                         then (objects r e)\<lparr>signal := Some ri\<rparr> else objects r e)"
    by blast
  from h(1) assms(1,2,3) have "TriggerRoundEvent N ri r =
           remove_all N (ID ri) (arr ! unat (State ri)) (r\<lparr>objects := h\<rparr>)"
    by (simp add: TriggerRoundEvent_def Let_def)
  with h(2) show ?thesis by blast
qed

lemma registry_ok_bucket:
  assumes "registry_ok N r" "callbacks r rid = Some arr"
  shows "length arr = N"
    and "i < N \<Longrightarrow> distinct (arr ! i)"
    and "i < N \<Longrightarrow> x \<in> set (arr ! i) \<Longrightarrow>
         x < allocated r \<and> signal (objects r x) = None \<and> closure_rid r x = rid \<and>
         i \<in> unat ` set (states (objects r x)) \<and> \<not> registering r x"
  using assms unfolding registry_ok_def registry_ok_besides_def by blast+

lemma registry_ok_states:
  "registry_ok N r \<Longrightarrow> x < allocated r \<Longrightarrow> \<not> registering r x \<Longrightarrow>
   \<forall>s \<in> set (states (objects r x)). unat s < N"
  unfolding registry_ok_def registry_ok_besides_def by blast

lemma registry_ok_invoked:
  "registry_ok N r \<Longrightarrow> times_invoked (allocated r) r = 0"
  unfolding registry_ok_def registry_ok_besides_def times_invoked_def
  by (auto simp: filter_empty_conv)

lemma registry_ok_fresh:
  assumes "registry_ok N r" "callbacks r rid = Some arr" "i < N"
  shows "allocated r \<notin> set (arr ! i)"
  using registry_ok_bucket(3) [OF assms(1,2,3), of "allocated r"] by auto

lemma absent_unregistered:
  assumes "\<forall>rid arr. callbacks r rid = Some arr \<longrightarrow> (\<forall>i < length arr. e \<notin> set (arr ! i))"
  shows "unregistered e r"
  unfolding unregistered_def
proof (intro allI impI ballI)
  fix rid arr b assume a: "callbacks r rid = Some arr" and b: "b \<in> set arr"
  from b obtain i where "i < length arr" "arr ! i = b" by (auto simp: in_set_conv_nth)
  with assms a show "e \<notin> set b" by blast
qed





lemma Signal_received_callbacks: "callbacks (Signal_received e r) = callbacks r"
  by (simp add: Signal_received_def split: option.splits)

lemma Timeout_elapsed_callbacks: "callbacks (Timeout_elapsed e r) = callbacks r"
  by (simp add: Timeout_elapsed_def)



lemma delete_states_valid:
  "delete_states N rid e ss cb = Some cb' \<Longrightarrow> \<forall>s \<in> set ss. unat s < N"
  by (induction ss arbitrary: cb) (auto split: if_splits)

lemma remove_Returns_valid:
  assumes "RoundEvents_remove N rid e r = Returns r'"
  shows "\<forall>s \<in> set (states (objects r e)). unat s < N"
proof -
  from assms obtain cb where
    "delete_states N rid e (states (objects r e)) (callbacks r) = Some cb"
    by (auto simp: RoundEvents_remove_def split: option.splits)
  then show ?thesis by (rule delete_states_valid)
qed

lemma remove_buckets:
  assumes "RoundEvents_remove N rid e r = Returns r'" "callbacks r' rid' = Some arr'"
  shows "\<exists>arr. callbacks r rid' = Some arr \<and> length arr' = length arr \<and>
           (\<forall>i < length arr. set (arr' ! i) \<subseteq> set (arr ! i) \<and>
              (distinct (arr ! i) \<longrightarrow> distinct (arr' ! i)))"
proof (cases "rid' = rid")
  case False
  with remove_frame [OF assms(1)] assms(2) have "callbacks r rid' = Some arr'" by simp
  then show ?thesis by simp
next
  case True
  from remove_from [OF remove_Returns_valid [OF assms(1)], of rid] assms(1)
  have "\<forall>arr'. callbacks r' rid = Some arr' \<longrightarrow>
              (\<exists>arr. callbacks r rid = Some arr \<and> length arr' = length arr \<and>
                 (\<forall>i < length arr. arr' ! i =
                    (if i \<in> unat ` set (states (objects r e)) then removeAll e (arr ! i)
                     else arr ! i)))"
    by simp
  with assms(2) True obtain arr where
    arr: "callbacks r rid = Some arr" "length arr' = length arr"
      "\<forall>i < length arr. arr' ! i =
                    (if i \<in> unat ` set (states (objects r e)) then removeAll e (arr ! i)
                     else arr ! i)"
    by blast
  have "\<forall>i < length arr. set (arr' ! i) \<subseteq> set (arr ! i) \<and>
              (distinct (arr ! i) \<longrightarrow> distinct (arr' ! i))"
  proof (intro allI impI)
    fix i assume "i < length arr"
    with arr(3) have "arr' ! i =
                    (if i \<in> unat ` set (states (objects r e)) then removeAll e (arr ! i)
                     else arr ! i)"
      by simp
    then show "set (arr' ! i) \<subseteq> set (arr ! i) \<and> (distinct (arr ! i) \<longrightarrow> distinct (arr' ! i))"
      by (auto simp: distinct_removeAll split: if_splits)
  qed
  with arr(1,2) True show ?thesis by simp
qed

lemma registry_ok_besidesI:
  assumes "\<And>rid arr. callbacks r rid = Some arr \<Longrightarrow> length arr = N"
    and "\<And>rid arr i. callbacks r rid = Some arr \<Longrightarrow> i < N \<Longrightarrow> distinct (arr ! i)"
    and "\<And>rid arr i e. callbacks r rid = Some arr \<Longrightarrow> i < N \<Longrightarrow> e \<in> set (arr ! i) \<Longrightarrow>
           e < allocated r \<and> (e \<notin> S \<longrightarrow> signal (objects r e) = None) \<and>
           closure_rid r e = rid \<and> i \<in> unat ` set (states (objects r e)) \<and>
           \<not> registering r e"
    and "\<And>e. e < allocated r \<Longrightarrow> \<not> registering r e \<Longrightarrow>
           \<forall>s \<in> set (states (objects r e)). unat s < N"
    and "\<And>x. x \<in> set (invoked r) \<Longrightarrow> fst x < allocated r"
    and "\<And>x. x \<in> set (removes r) \<Longrightarrow> snd x < allocated r \<and> closure_rid r (snd x) = fst x"
    and "\<And>e. selecting r e \<Longrightarrow> e < allocated r"
    and "\<And>e. registering r e \<Longrightarrow> e < allocated r \<and> signal (objects r e) = None"
  shows "registry_ok_besides S N r"
  unfolding registry_ok_besides_def
proof (intro conjI allI impI ballI)
  fix rid arr assume "callbacks r rid = Some arr"
  then show "length arr = N" by (rule assms(1))
next
  fix rid arr i assume "callbacks r rid = Some arr" "i < N"
  then show "distinct (arr ! i)" by (rule assms(2))
next
  fix rid arr i e assume a: "callbacks r rid = Some arr" "i < N" "e \<in> set (arr ! i)"
  from assms(3) [OF a] show "e < allocated r" by simp
  from assms(3) [OF a] show "closure_rid r e = rid" by simp
  from assms(3) [OF a] show "i \<in> unat ` set (states (objects r e))" by simp
  from assms(3) [OF a] show "\<not> registering r e" by simp
  assume "e \<notin> S"
  with assms(3) [OF a] show "signal (objects r e) = None" by simp
next
  fix e s assume "e < allocated r" "\<not> registering r e" "s \<in> set (states (objects r e))"
  with assms(4) [of e] show "unat s < N" by blast
next
  fix x assume "x \<in> set (invoked r)"
  then show "fst x < allocated r" by (rule assms(5))
next
  fix x assume x: "x \<in> set (removes r)"
  from assms(6) [OF x] show "snd x < allocated r" by simp
  from assms(6) [OF x] show "closure_rid r (snd x) = fst x" by simp
next
  fix e assume "selecting r e"
  then show "e < allocated r" by (rule assms(7))
next
  fix e assume e: "registering r e"
  from assms(8) [OF e] show "e < allocated r" by simp
  from assms(8) [OF e] show "signal (objects r e) = None" by simp
qed

lemma registry_ok_besidesD:
  assumes "registry_ok_besides S N r"
  shows "callbacks r rid = Some arr \<Longrightarrow> length arr = N"
    and "callbacks r rid = Some arr \<Longrightarrow> i < N \<Longrightarrow> distinct (arr ! i)"
    and "callbacks r rid = Some arr \<Longrightarrow> i < N \<Longrightarrow> e \<in> set (arr ! i) \<Longrightarrow>
           e < allocated r \<and> (e \<notin> S \<longrightarrow> signal (objects r e) = None) \<and>
           closure_rid r e = rid \<and> i \<in> unat ` set (states (objects r e)) \<and>
           \<not> registering r e"
    and "e < allocated r \<Longrightarrow> \<not> registering r e \<Longrightarrow>
           \<forall>s \<in> set (states (objects r e)). unat s < N"
    and "x \<in> set (invoked r) \<Longrightarrow> fst x < allocated r"
    and "y \<in> set (removes r) \<Longrightarrow> snd y < allocated r \<and> closure_rid r (snd y) = fst y"
    and "selecting r e \<Longrightarrow> e < allocated r"
    and "registering r e \<Longrightarrow> e < allocated r \<and> signal (objects r e) = None"
  using assms unfolding registry_ok_besides_def by blast+

lemma registry_ok_besides_buckets:
  assumes "registry_ok_besides S N r"
    and fields: "objects r' = objects r" "allocated r' = allocated r"
      "closure_rid r' = closure_rid r" "selecting r' = selecting r"
      "registering r' = registering r"
      "removes r' = removes r" "invoked r' = invoked r"
    and buckets: "\<And>rid arr'. callbacks r' rid = Some arr' \<Longrightarrow>
       \<exists>arr. callbacks r rid = Some arr \<and> length arr' = length arr \<and>
           (\<forall>i < length arr. set (arr' ! i) \<subseteq> set (arr ! i) \<and>
              (distinct (arr ! i) \<longrightarrow> distinct (arr' ! i)))"
  shows "registry_ok_besides S N r'"
proof (rule registry_ok_besidesI)
  fix rid arr' assume a: "callbacks r' rid = Some arr'"
  from buckets [OF a] obtain arr where arr: "callbacks r rid = Some arr" "length arr' = length arr"
    by blast
  from registry_ok_besidesD(1) [OF assms(1) arr(1)] arr(2) show "length arr' = N" by simp
next
  fix rid arr' i assume a: "callbacks r' rid = Some arr'" and i: "i < N"
  from buckets [OF a] obtain arr where arr: "callbacks r rid = Some arr"
    "\<forall>i < length arr. set (arr' ! i) \<subseteq> set (arr ! i) \<and>
              (distinct (arr ! i) \<longrightarrow> distinct (arr' ! i))"
    by blast
  from registry_ok_besidesD(1) [OF assms(1) arr(1)] i arr(2)
  have "distinct (arr ! i) \<longrightarrow> distinct (arr' ! i)" by simp
  with registry_ok_besidesD(2) [OF assms(1) arr(1) i] show "distinct (arr' ! i)" by simp
next
  fix rid arr' i e
  assume a: "callbacks r' rid = Some arr'" and i: "i < N" and e: "e \<in> set (arr' ! i)"
  from buckets [OF a] obtain arr where arr: "callbacks r rid = Some arr"
    "\<forall>i < length arr. set (arr' ! i) \<subseteq> set (arr ! i) \<and>
              (distinct (arr ! i) \<longrightarrow> distinct (arr' ! i))"
    by blast
  from registry_ok_besidesD(1) [OF assms(1) arr(1)] i arr(2) e
  have "e \<in> set (arr ! i)" by auto
  from registry_ok_besidesD(3) [OF assms(1) arr(1) i this] fields
  show "e < allocated r' \<and> (e \<notin> S \<longrightarrow> signal (objects r' e) = None) \<and>
           closure_rid r' e = rid \<and> i \<in> unat ` set (states (objects r' e)) \<and>
           \<not> registering r' e"
    by simp
next
  fix e assume "e < allocated r'" "\<not> registering r' e"
  with registry_ok_besidesD(4) [OF assms(1), of e] fields
  show "\<forall>s \<in> set (states (objects r' e)). unat s < N" by simp
next
  fix x assume "x \<in> set (invoked r')"
  with registry_ok_besidesD(5) [OF assms(1), of x] fields show "fst x < allocated r'" by simp
next
  fix x assume "x \<in> set (removes r')"
  with registry_ok_besidesD(6) [OF assms(1), of x] fields
  show "snd x < allocated r' \<and> closure_rid r' (snd x) = fst x" by simp
next
  fix e assume "selecting r' e"
  with registry_ok_besidesD(7) [OF assms(1), of e] fields show "e < allocated r'" by simp
next
  fix e assume "registering r' e"
  with registry_ok_besidesD(8) [OF assms(1), of e] fields
  show "e < allocated r' \<and> signal (objects r' e) = None" by simp
qed

lemma remove_ok:
  assumes "registry_ok_besides S N r" "RoundEvents_remove N rid e r = Returns r'"
  shows "registry_ok_besides S N r'"
proof -
  note fr = remove_frame [OF assms(2)]
  show ?thesis
  proof (rule registry_ok_besides_buckets [OF assms(1)])
    fix rid' arr' assume "callbacks r' rid' = Some arr'"
    from remove_buckets [OF assms(2) this]
    show "\<exists>arr. callbacks r rid' = Some arr \<and> length arr' = length arr \<and>
           (\<forall>i < length arr. set (arr' ! i) \<subseteq> set (arr ! i) \<and>
              (distinct (arr ! i) \<longrightarrow> distinct (arr' ! i)))" .
  qed (use fr in simp_all)
qed

lemma remove_all_ok:
  "registry_ok_besides S N r \<Longrightarrow> remove_all N rid es r = Returns r' \<Longrightarrow>
   registry_ok_besides S N r'"
proof (induction es arbitrary: r)
  case Nil
  then show ?case by simp
next
  case (Cons e es)
  from Cons.prems(2) obtain r1 where r1: "RoundEvents_remove N rid e r = Returns r1"
    and rest: "remove_all N rid es r1 = Returns r'"
    by (auto split: outcome.splits)
  from Cons.IH [OF remove_ok [OF Cons.prems(1) r1] rest] show ?case .
qed

lemma send_all_result:
  "send_all ri es h0 = Some h \<Longrightarrow>
   states (h x) = states (h0 x) \<and> (x \<notin> set es \<longrightarrow> h x = h0 x)"
  by (induction es arbitrary: h0) (auto split: option.splits if_splits)

lemma sent_ok:
  assumes "registry_ok_besides {} N r" "\<forall>x. states (h x) = states (objects r x)"
    "\<forall>x. x \<notin> S \<longrightarrow> h x = objects r x" "\<forall>x \<in> S. \<not> registering r x"
  shows "registry_ok_besides S N (r\<lparr>objects := h\<rparr>)"
proof (rule registry_ok_besidesI)
  fix rid arr assume "callbacks (r\<lparr>objects := h\<rparr>) rid = Some arr"
  then have a: "callbacks r rid = Some arr" by simp
  from registry_ok_besidesD(1) [OF assms(1) a] show "length arr = N" .
next
  fix rid arr i assume "callbacks (r\<lparr>objects := h\<rparr>) rid = Some arr" and i: "i < N"
  then have a: "callbacks r rid = Some arr" by simp
  from registry_ok_besidesD(2) [OF assms(1) a i] show "distinct (arr ! i)" .
next
  fix rid arr i e
  assume "callbacks (r\<lparr>objects := h\<rparr>) rid = Some arr" and i: "i < N" and e: "e \<in> set (arr ! i)"
  then have a: "callbacks r rid = Some arr" by simp
  from registry_ok_besidesD(3) [OF assms(1) a i e] assms(2,3)
  show "e < allocated (r\<lparr>objects := h\<rparr>) \<and>
        (e \<notin> S \<longrightarrow> signal (objects (r\<lparr>objects := h\<rparr>) e) = None) \<and>
        closure_rid (r\<lparr>objects := h\<rparr>) e = rid \<and>
        i \<in> unat ` set (states (objects (r\<lparr>objects := h\<rparr>) e)) \<and>
        \<not> registering (r\<lparr>objects := h\<rparr>) e"
    by simp
next
  fix e assume "e < allocated (r\<lparr>objects := h\<rparr>)" "\<not> registering (r\<lparr>objects := h\<rparr>) e"
  with registry_ok_besidesD(4) [OF assms(1), of e] assms(2)
  show "\<forall>s \<in> set (states (objects (r\<lparr>objects := h\<rparr>) e)). unat s < N" by simp
next
  fix x assume "x \<in> set (invoked (r\<lparr>objects := h\<rparr>))"
  with registry_ok_besidesD(5) [OF assms(1), of x]
  show "fst x < allocated (r\<lparr>objects := h\<rparr>)" by simp
next
  fix x assume "x \<in> set (removes (r\<lparr>objects := h\<rparr>))"
  with registry_ok_besidesD(6) [OF assms(1), of x]
  show "snd x < allocated (r\<lparr>objects := h\<rparr>) \<and>
        closure_rid (r\<lparr>objects := h\<rparr>) (snd x) = fst x"
    by simp
next
  fix e assume "selecting (r\<lparr>objects := h\<rparr>) e"
  with registry_ok_besidesD(7) [OF assms(1), of e]
  show "e < allocated (r\<lparr>objects := h\<rparr>)" by simp
next
  fix e assume "registering (r\<lparr>objects := h\<rparr>) e"
  then have g: "registering r e" by simp
  with assms(4) have "e \<notin> S" by blast
  with assms(3) have "h e = objects r e" by simp
  with registry_ok_besidesD(8) [OF assms(1) g]
  show "e < allocated (r\<lparr>objects := h\<rparr>) \<and> signal (objects (r\<lparr>objects := h\<rparr>) e) = None"
    by simp
qed

lemma besides_none:
  assumes "registry_ok_besides S N r"
    and "\<And>rid arr i e. callbacks r rid = Some arr \<Longrightarrow> i < N \<Longrightarrow> e \<in> set (arr ! i) \<Longrightarrow> e \<notin> S"
  shows "registry_ok_besides {} N r"
proof (rule registry_ok_besidesI)
  fix rid arr i e
  assume a: "callbacks r rid = Some arr" "i < N" "e \<in> set (arr ! i)"
  from registry_ok_besidesD(3) [OF assms(1) a] assms(2) [OF a]
  show "e < allocated r \<and> (e \<notin> {} \<longrightarrow> signal (objects r e) = None) \<and>
           closure_rid r e = rid \<and> i \<in> unat ` set (states (objects r e)) \<and>
           \<not> registering r e"
    by simp
qed (use registry_ok_besidesD [OF assms(1)] in blast)+

lemma besides_bucket:
  assumes "registry_ok_besides S N r" "callbacks r rid = Some arr" "i < N" "x \<in> set (arr ! i)"
  shows "length arr = N" and "x < allocated r" and "closure_rid r x = rid"
    and "i \<in> unat ` set (states (objects r x))"
    and "\<forall>s \<in> set (states (objects r x)). unat s < N"
    and "\<not> registering r x"
proof -
  note b = registry_ok_besidesD(3) [OF assms]
  from registry_ok_besidesD(1) [OF assms(1,2)] show "length arr = N" .
  from b show x: "x < allocated r" by simp
  from b show "closure_rid r x = rid" by simp
  from b show "i \<in> unat ` set (states (objects r x))" by simp
  from b show g: "\<not> registering r x" by simp
  from registry_ok_besidesD(4) [OF assms(1) x g]
  show "\<forall>s \<in> set (states (objects r x)). unat s < N" .
qed

lemma Trigger_ok:
  assumes ok: "registry_ok N r" and t: "TriggerRoundEvent N ri r = Returns r'"
  shows "registry_ok N r'"
proof (cases "callbacks r (ID ri)")
  case None
  with t ok show ?thesis by (simp add: TriggerRoundEvent_def)
next
  case (Some arr)
  let ?k = "unat (State ri)"
  let ?es = "arr ! ?k"
  show ?thesis
  proof (cases "?k < N \<and> length ?es \<noteq> 0")
    case False
    with t Some have "r' = r"
      by (auto simp: TriggerRoundEvent_def Let_def split: if_splits)
    with ok show ?thesis by simp
  next
    case True
    then have k: "?k < N" by simp
    from True t Some obtain h where
      send: "send_all ri ?es (objects r) = Some h"
      and rm: "remove_all N (ID ri) ?es (r\<lparr>objects := h\<rparr>) = Returns r'"
      by (auto simp: TriggerRoundEvent_def Let_def split: option.splits)
    let ?rh = "r\<lparr>objects := h\<rparr>"
    from ok have ok0: "registry_ok_besides {} N r" by (simp add: registry_ok_def)
    from send_all_result [OF send] have
      "\<forall>x. states (h x) = states (objects r x)" "\<forall>x. x \<notin> set ?es \<longrightarrow> h x = objects r x"
      by simp_all
    moreover from registry_ok_bucket(3) [OF ok Some k]
    have "\<forall>x \<in> set ?es. \<not> registering r x" by blast
    ultimately have okh: "registry_ok_besides (set ?es) N ?rh" by (rule sent_ok [OF ok0])
    from remove_all_ok [OF okh rm] have ok': "registry_ok_besides (set ?es) N r'" .
    from Some have cbh: "callbacks ?rh (ID ri) = Some arr" by simp
    have valid: "\<forall>e \<in> set ?es. \<forall>s \<in> set (states (objects ?rh e)). unat s < N"
    proof
      fix e assume "e \<in> set ?es"
      from besides_bucket(5) [OF okh cbh k this]
      show "\<forall>s \<in> set (states (objects ?rh e)). unat s < N" .
    qed
    note fr = remove_all_frame [OF rm]
    have "registry_ok_besides {} N r'"
    proof (rule besides_none [OF ok'])
      fix rid' arr' i e
      assume a: "callbacks r' rid' = Some arr'" and i: "i < N" and e: "e \<in> set (arr' ! i)"
      from besides_bucket(1) [OF ok' a i e] have l': "length arr' = N" .
      show "e \<notin> set ?es"
      proof
        assume in_es: "e \<in> set ?es"
        show False
        proof (cases "rid' = ID ri")
          case True
          have only: "\<forall>arr. callbacks ?rh (ID ri) = Some arr \<longrightarrow>
             (\<forall>i < length arr. e \<in> set (arr ! i) \<longrightarrow>
                i \<in> unat ` set (states (objects ?rh e)))"
          proof (intro allI impI)
            fix arr0 j assume b: "callbacks ?rh (ID ri) = Some arr0" and j: "j < length arr0"
              and x: "e \<in> set (arr0 ! j)"
            from b cbh have "arr0 = arr" by simp
            moreover from besides_bucket(1) [OF okh cbh k in_es] have "length arr = N" .
            ultimately have jN: "j < N" and xa: "e \<in> set (arr ! j)" using j x by simp_all
            from besides_bucket(4) [OF okh cbh jN xa]
            show "j \<in> unat ` set (states (objects ?rh e))" .
          qed
          from in_es only have pre: "(e \<in> set ?es \<and>
              (\<forall>arr. callbacks ?rh (ID ri) = Some arr \<longrightarrow>
                 (\<forall>i < length arr. e \<in> set (arr ! i) \<longrightarrow>
                    i \<in> unat ` set (states (objects ?rh e))))) \<or>
              (\<forall>arr. callbacks ?rh (ID ri) = Some arr \<longrightarrow> (\<forall>i < length arr. e \<notin> set (arr ! i)))"
            by blast
          from remove_all_absent [OF valid pre rm] a True i l' e show False by simp
        next
          case False
          from besides_bucket(3) [OF ok' a i e] have c1: "closure_rid r' e = rid'" .
          from besides_bucket(3) [OF okh cbh k in_es] have c2: "closure_rid ?rh e = ID ri" .
          from c1 c2 fr False show False by simp
        qed
      qed
    qed
    then show ?thesis by (simp add: registry_ok_def)
  qed
qed

lemma Start_ok:
  assumes ok: "registry_ok N r"
  shows "registry_ok N (AddRoundEvent_start rid sts r)"
proof -
  let ?e = "allocated r"
  let ?r' = "AddRoundEvent_start rid sts r"
  note fr = AddRoundEvent_start_frame [of rid sts r]
  from ok have ok0: "registry_ok_besides {} N r" by (simp add: registry_ok_def)
  have "registry_ok_besides {} N ?r'"
  proof (rule registry_ok_besidesI)
    fix rid' arr assume "callbacks ?r' rid' = Some arr"
    with fr have a: "callbacks r rid' = Some arr" by simp
    from registry_ok_besidesD(1) [OF ok0 a] show "length arr = N" .
  next
    fix rid' arr i assume "callbacks ?r' rid' = Some arr" and i: "i < N"
    with fr have a: "callbacks r rid' = Some arr" by simp
    from registry_ok_besidesD(2) [OF ok0 a i] show "distinct (arr ! i)" .
  next
    fix rid' arr i x
    assume "callbacks ?r' rid' = Some arr" and i: "i < N" and x: "x \<in> set (arr ! i)"
    with fr have a: "callbacks r rid' = Some arr" by simp
    note b = registry_ok_besidesD(3) [OF ok0 a i x]
    from b have "x \<noteq> ?e" by auto
    with b fr show "x < allocated ?r' \<and> (x \<notin> {} \<longrightarrow> signal (objects ?r' x) = None) \<and>
           closure_rid ?r' x = rid' \<and> i \<in> unat ` set (states (objects ?r' x)) \<and>
           \<not> registering ?r' x"
      by simp
  next
    fix x assume x: "x < allocated ?r'" and g: "\<not> registering ?r' x"
    from g fr have ne: "x \<noteq> ?e" by auto
    with x g fr have "x < ?e" "\<not> registering r x" by simp_all
    from registry_ok_besidesD(4) [OF ok0 this] ne fr
    show "\<forall>s \<in> set (states (objects ?r' x)). unat s < N" by simp
  next
    fix x assume "x \<in> set (invoked ?r')"
    with registry_ok_besidesD(5) [OF ok0, of x] fr show "fst x < allocated ?r'" by simp
  next
    fix x assume "x \<in> set (removes ?r')"
    with fr have "x \<in> set (removes r)" by simp
    from registry_ok_besidesD(6) [OF ok0 this] fr
    show "snd x < allocated ?r' \<and> closure_rid ?r' (snd x) = fst x" by auto
  next
    fix x assume "selecting ?r' x"
    with registry_ok_besidesD(7) [OF ok0, of x] fr show "x < allocated ?r'"
      by (cases "x = ?e") simp_all
  next
    fix x assume "registering ?r' x"
    with registry_ok_besidesD(8) [OF ok0, of x] fr
    show "x < allocated ?r' \<and> signal (objects ?r' x) = None"
      by (cases "x = ?e") simp_all
  qed
  then show ?thesis by (simp add: registry_ok_def)
qed

lemma Register_ok:
  assumes ok: "registry_ok N r" and a: "AddRoundEvent_register N rid sts e r = Returns r'"
  shows "registry_ok N r'"
proof (cases "registering r e \<and> closure_rid r e = rid \<and> states (objects r e) = sts")
  case False
  with a have "r' = r" by (auto simp: AddRoundEvent_register_def)
  with ok show ?thesis by simp
next
  case True
  then have reg: "registering r e" and clo: "closure_rid r e = rid"
    and sts: "states (objects r e) = sts"
    by simp_all
  from ok have ok0: "registry_ok_besides {} N r" by (simp add: registry_ok_def)
  from registry_ok_besidesD(8) [OF ok0 reg]
  have e: "e < allocated r" and se: "signal (objects r e) = None" by simp_all
  from a True obtain arr0 where "register_states N e sts
      (case callbacks r rid of None \<Rightarrow> replicate N [] | Some arr \<Rightarrow> arr) = Some arr0"
    by (auto simp: AddRoundEvent_register_def split: option.splits)
  from register_states_valid [OF this] have valid: "\<forall>s \<in> set sts. unat s < N" .
  from registry_ok_bucket(1) [OF ok] have "\<forall>arr. callbacks r rid = Some arr \<longrightarrow> length arr = N"
    by blast
  from AddRoundEvent_register_Returns [OF valid this reg clo sts] a obtain arr1 where
    cb1: "callbacks r' rid = Some arr1"
    and other1: "\<forall>rid'. rid' \<noteq> rid \<longrightarrow> callbacks r' rid' = callbacks r rid'"
    and obj1: "objects r' = objects r"
    and al1: "allocated r' = allocated r"
    and clo1: "closure_rid r' = closure_rid r"
    and sel1: "selecting r' = selecting r"
    and reg1: "registering r' = (registering r)(e := False)"
    and rem1: "removes r' = removes r"
    and inv1: "invoked r' = invoked r"
    and len1: "length arr1 = N"
    and set1: "\<forall>i < N. set (arr1 ! i) =
                (case callbacks r rid of None \<Rightarrow> {} | Some arr \<Rightarrow> set (arr ! i)) \<union>
                (if i \<in> unat ` set sts then {e} else {}) \<and>
              ((case callbacks r rid of None \<Rightarrow> True | Some arr \<Rightarrow> distinct (arr ! i)) \<longrightarrow>
                 distinct (arr1 ! i))"
    by auto
  \<comment> \<open>an object that was in a bucket before is still as it was\<close>
  have keep: "\<And>rid' arr i x. callbacks r rid' = Some arr \<Longrightarrow> i < N \<Longrightarrow> x \<in> set (arr ! i) \<Longrightarrow>
      x < allocated r' \<and> signal (objects r' x) = None \<and> closure_rid r' x = rid' \<and>
      i \<in> unat ` set (states (objects r' x)) \<and> \<not> registering r' x"
  proof -
    fix rid' arr i x
    assume c: "callbacks r rid' = Some arr" and i: "i < N" and x: "x \<in> set (arr ! i)"
    from registry_ok_bucket(3) [OF ok c i x] obj1 al1 clo1 reg1
    show "x < allocated r' \<and> signal (objects r' x) = None \<and>
      closure_rid r' x = rid' \<and> i \<in> unat ` set (states (objects r' x)) \<and> \<not> registering r' x"
      by simp
  qed
  have new: "\<And>i x. i < N \<Longrightarrow> x \<in> set (arr1 ! i) \<Longrightarrow>
      x < allocated r' \<and> signal (objects r' x) = None \<and> closure_rid r' x = rid \<and>
      i \<in> unat ` set (states (objects r' x)) \<and> \<not> registering r' x"
  proof -
    fix i x assume i: "i < N" and x: "x \<in> set (arr1 ! i)"
    show "x < allocated r' \<and> signal (objects r' x) = None \<and> closure_rid r' x = rid \<and>
      i \<in> unat ` set (states (objects r' x)) \<and> \<not> registering r' x"
    proof (cases "callbacks r rid")
      case None
      with set1 i x have "x = e" "i \<in> unat ` set sts" by (auto split: if_splits)
      with e se clo sts obj1 al1 clo1 reg1 show ?thesis by simp
    next
      case (Some arr)
      show ?thesis
      proof (cases "x \<in> set (arr ! i)")
        case True
        from keep [OF Some i True] show ?thesis .
      next
        case False
        with set1 i x Some have "x = e" "i \<in> unat ` set sts" by (auto split: if_splits)
        with e se clo sts obj1 al1 clo1 reg1 show ?thesis by simp
      qed
    qed
  qed
  have "registry_ok_besides {} N r'"
  proof (rule registry_ok_besidesI)
    fix rid' arr' assume c': "callbacks r' rid' = Some arr'"
    show "length arr' = N"
    proof (cases "rid' = rid")
      case True
      with c' cb1 len1 show ?thesis by simp
    next
      case False
      with other1 c' have "callbacks r rid' = Some arr'" by simp
      from registry_ok_besidesD(1) [OF ok0 this] show ?thesis .
    qed
  next
    fix rid' arr' i assume c': "callbacks r' rid' = Some arr'" and i: "i < N"
    show "distinct (arr' ! i)"
    proof (cases "rid' = rid")
      case False
      with other1 c' have "callbacks r rid' = Some arr'" by simp
      from registry_ok_besidesD(2) [OF ok0 this i] show ?thesis .
    next
      case True
      with c' cb1 have eq: "arr' = arr1" by simp
      show ?thesis
      proof (cases "callbacks r rid")
        case None
        with set1 i eq show ?thesis by simp
      next
        case (Some arr)
        from registry_ok_bucket(2) [OF ok Some i] set1 i Some eq show ?thesis by simp
      qed
    qed
  next
    fix rid' arr' i x
    assume c': "callbacks r' rid' = Some arr'" and i: "i < N" and x: "x \<in> set (arr' ! i)"
    have "x < allocated r' \<and> signal (objects r' x) = None \<and> closure_rid r' x = rid' \<and>
      i \<in> unat ` set (states (objects r' x)) \<and> \<not> registering r' x"
    proof (cases "rid' = rid")
      case False
      with other1 c' have "callbacks r rid' = Some arr'" by simp
      from keep [OF this i x] show ?thesis .
    next
      case True
      with c' cb1 have "arr' = arr1" by simp
      with new [OF i] x True show ?thesis by simp
    qed
    then show "x < allocated r' \<and> (x \<notin> {} \<longrightarrow> signal (objects r' x) = None) \<and>
           closure_rid r' x = rid' \<and> i \<in> unat ` set (states (objects r' x)) \<and>
           \<not> registering r' x"
      by simp
  next
    fix x assume x: "x < allocated r'" and g: "\<not> registering r' x"
    show "\<forall>s \<in> set (states (objects r' x)). unat s < N"
    proof (cases "x = e")
      case True
      with sts valid obj1 show ?thesis by simp
    next
      case False
      with x g al1 reg1 have "x < allocated r" "\<not> registering r x" by simp_all
      from registry_ok_besidesD(4) [OF ok0 this] obj1 show ?thesis by simp
    qed
  next
    fix x assume "x \<in> set (invoked r')"
    with registry_ok_besidesD(5) [OF ok0, of x] inv1 al1 show "fst x < allocated r'" by simp
  next
    fix x assume "x \<in> set (removes r')"
    with registry_ok_besidesD(6) [OF ok0, of x] rem1 al1 clo1
    show "snd x < allocated r' \<and> closure_rid r' (snd x) = fst x" by simp
  next
    fix x assume "selecting r' x"
    with registry_ok_besidesD(7) [OF ok0, of x] sel1 al1 show "x < allocated r'" by simp
  next
    fix x assume "registering r' x"
    with reg1 have "registering r x" by (simp split: if_splits)
    from registry_ok_besidesD(8) [OF ok0 this] al1 obj1
    show "x < allocated r' \<and> signal (objects r' x) = None" by simp
  qed
  then show ?thesis by (simp add: registry_ok_def)
qed

lemma Receive_ok:
  assumes "registry_ok N r"
  shows "registry_ok N (Signal_received e r)"
proof (cases "selecting r e \<and> signal (objects r e) \<noteq> None")
  case False
  then have "Signal_received e r = r"
    by (auto simp: Signal_received_def split: option.splits)
  with assms show ?thesis by simp
next
  case True
  then obtain ri where ri: "signal (objects r e) = Some ri" and sel: "selecting r e" by auto
  from assms have ok0: "registry_ok_besides {} N r" by (simp add: registry_ok_def)
  from registry_ok_besidesD(7) [OF ok0 sel] have e: "e < allocated r" .
  from registry_ok_besidesD(8) [OF ok0, of e] ri have g: "\<not> registering r e" by auto
  let ?h = "(objects r)(e := (objects r e)\<lparr>signal := None\<rparr>)"
  let ?r' = "r\<lparr>objects := ?h,
               selecting := (selecting r)(e := False),
               invoked := invoked r @ [(e, ri, False)]\<rparr>"
  from ri sel have eq: "Signal_received e r = ?r'" by (simp add: Signal_received_def)
  have "\<forall>x. states (?h x) = states (objects r x)" by simp
  moreover have "\<forall>x. x \<notin> {e} \<longrightarrow> ?h x = objects r x" by simp
  moreover from g have "\<forall>x \<in> {e}. \<not> registering r x" by simp
  ultimately have okh: "registry_ok_besides {e} N (r\<lparr>objects := ?h\<rparr>)"
    by (rule sent_ok [OF ok0])
  have "registry_ok_besides {} N ?r'"
  proof (rule registry_ok_besidesI)
    fix rid arr assume "callbacks ?r' rid = Some arr"
    then have a: "callbacks (r\<lparr>objects := ?h\<rparr>) rid = Some arr" by simp
    from registry_ok_besidesD(1) [OF okh a] show "length arr = N" .
  next
    fix rid arr i assume "callbacks ?r' rid = Some arr" and i: "i < N"
    then have a: "callbacks (r\<lparr>objects := ?h\<rparr>) rid = Some arr" by simp
    from registry_ok_besidesD(2) [OF okh a i] show "distinct (arr ! i)" .
  next
    fix rid arr i x
    assume "callbacks ?r' rid = Some arr" and i: "i < N" and x: "x \<in> set (arr ! i)"
    then have a: "callbacks (r\<lparr>objects := ?h\<rparr>) rid = Some arr" by simp
    from registry_ok_besidesD(3) [OF okh a i x]
    show "x < allocated ?r' \<and> (x \<notin> {} \<longrightarrow> signal (objects ?r' x) = None) \<and>
           closure_rid ?r' x = rid \<and> i \<in> unat ` set (states (objects ?r' x)) \<and>
           \<not> registering ?r' x"
      by (cases "x = e") simp_all
  next
    fix x assume "x < allocated ?r'" "\<not> registering ?r' x"
    with registry_ok_besidesD(4) [OF okh, of x]
    show "\<forall>s \<in> set (states (objects ?r' x)). unat s < N" by simp
  next
    fix x assume "x \<in> set (invoked ?r')"
    with registry_ok_besidesD(5) [OF okh, of x] e show "fst x < allocated ?r'" by auto
  next
    fix x assume "x \<in> set (removes ?r')"
    with registry_ok_besidesD(6) [OF okh, of x]
    show "snd x < allocated ?r' \<and> closure_rid ?r' (snd x) = fst x" by simp
  next
    fix x assume "selecting ?r' x"
    with registry_ok_besidesD(7) [OF okh, of x] show "x < allocated ?r'"
      by (simp split: if_splits)
  next
    fix x assume "registering ?r' x"
    with registry_ok_besidesD(8) [OF okh, of x]
    show "x < allocated ?r' \<and> signal (objects ?r' x) = None" by simp
  qed
  with eq show ?thesis by (simp add: registry_ok_def)
qed

lemma Timeout_ok:
  assumes "registry_ok N r"
  shows "registry_ok N (Timeout_elapsed e r)"
proof (cases "selecting r e")
  case False
  then have "Timeout_elapsed e r = r" by (simp add: Timeout_elapsed_def)
  with assms show ?thesis by simp
next
  case True
  from assms have ok0: "registry_ok_besides {} N r" by (simp add: registry_ok_def)
  from registry_ok_besidesD(7) [OF ok0 True] have e: "e < allocated r" .
  let ?r' = "r\<lparr>selecting := (selecting r)(e := False),
          removes := removes r @ [(closure_rid r e, e)],
          invoked := invoked r @ [(e, \<lparr>ID = closure_rid r e, State = 0, Timestamps = []\<rparr>, True)]\<rparr>"
  from True have eq: "Timeout_elapsed e r = ?r'" by (simp add: Timeout_elapsed_def)
  have "registry_ok_besides {} N ?r'"
  proof (rule registry_ok_besidesI)
    fix rid arr assume "callbacks ?r' rid = Some arr"
    then have a: "callbacks r rid = Some arr" by simp
    from registry_ok_besidesD(1) [OF ok0 a] show "length arr = N" .
  next
    fix rid arr i assume "callbacks ?r' rid = Some arr" and i: "i < N"
    then have a: "callbacks r rid = Some arr" by simp
    from registry_ok_besidesD(2) [OF ok0 a i] show "distinct (arr ! i)" .
  next
    fix rid arr i x
    assume "callbacks ?r' rid = Some arr" and i: "i < N" and x: "x \<in> set (arr ! i)"
    then have a: "callbacks r rid = Some arr" by simp
    from registry_ok_besidesD(3) [OF ok0 a i x]
    show "x < allocated ?r' \<and> (x \<notin> {} \<longrightarrow> signal (objects ?r' x) = None) \<and>
           closure_rid ?r' x = rid \<and> i \<in> unat ` set (states (objects ?r' x)) \<and>
           \<not> registering ?r' x"
      by simp
  next
    fix x assume "x < allocated ?r'" "\<not> registering ?r' x"
    with registry_ok_besidesD(4) [OF ok0, of x]
    show "\<forall>s \<in> set (states (objects ?r' x)). unat s < N" by simp
  next
    fix x assume "x \<in> set (invoked ?r')"
    with registry_ok_besidesD(5) [OF ok0, of x] e show "fst x < allocated ?r'" by auto
  next
    fix x assume "x \<in> set (removes ?r')"
    with registry_ok_besidesD(6) [OF ok0, of x] e
    show "snd x < allocated ?r' \<and> closure_rid ?r' (snd x) = fst x" by auto
  next
    fix x assume "selecting ?r' x"
    with registry_ok_besidesD(7) [OF ok0, of x] show "x < allocated ?r'"
      by (simp split: if_splits)
  next
    fix x assume "registering ?r' x"
    with registry_ok_besidesD(8) [OF ok0, of x]
    show "x < allocated ?r' \<and> signal (objects ?r' x) = None" by simp
  qed
  with eq show ?thesis by (simp add: registry_ok_def)
qed

lemma Cleanup_ok:
  assumes "registry_ok N r" "Remove_runs N rid e r = Returns r'"
  shows "registry_ok N r'"
proof (cases "(rid, e) \<in> set (removes r)")
  case False
  with assms show ?thesis by (simp add: Remove_runs_def)
next
  case True
  let ?rp = "r\<lparr>removes := remove1 (rid, e) (removes r)\<rparr>"
  from True assms(2) have rm: "RoundEvents_remove N rid e ?rp = Returns r'"
    by (simp add: Remove_runs_def RoundEvents_Remove_def)
  from assms(1) have ok0: "registry_ok_besides {} N r" by (simp add: registry_ok_def)
  have sub: "set (remove1 (rid, e) (removes r)) \<subseteq> set (removes r)" by (rule set_remove1_subset)
  have "registry_ok_besides {} N ?rp"
  proof (rule registry_ok_besidesI)
    fix rid' arr assume "callbacks ?rp rid' = Some arr"
    then have a: "callbacks r rid' = Some arr" by simp
    from registry_ok_besidesD(1) [OF ok0 a] show "length arr = N" .
  next
    fix rid' arr i assume "callbacks ?rp rid' = Some arr" and i: "i < N"
    then have a: "callbacks r rid' = Some arr" by simp
    from registry_ok_besidesD(2) [OF ok0 a i] show "distinct (arr ! i)" .
  next
    fix rid' arr i x
    assume "callbacks ?rp rid' = Some arr" and i: "i < N" and x: "x \<in> set (arr ! i)"
    then have a: "callbacks r rid' = Some arr" by simp
    from registry_ok_besidesD(3) [OF ok0 a i x]
    show "x < allocated ?rp \<and> (x \<notin> {} \<longrightarrow> signal (objects ?rp x) = None) \<and>
           closure_rid ?rp x = rid' \<and> i \<in> unat ` set (states (objects ?rp x)) \<and>
           \<not> registering ?rp x"
      by simp
  next
    fix x assume "x < allocated ?rp" "\<not> registering ?rp x"
    with registry_ok_besidesD(4) [OF ok0, of x]
    show "\<forall>s \<in> set (states (objects ?rp x)). unat s < N" by simp
  next
    fix x assume "x \<in> set (invoked ?rp)"
    with registry_ok_besidesD(5) [OF ok0, of x] show "fst x < allocated ?rp" by simp
  next
    fix x assume "x \<in> set (removes ?rp)"
    with sub have "x \<in> set (removes r)" by auto
    from registry_ok_besidesD(6) [OF ok0 this]
    show "snd x < allocated ?rp \<and> closure_rid ?rp (snd x) = fst x" by simp
  next
    fix x assume "selecting ?rp x"
    with registry_ok_besidesD(7) [OF ok0, of x] show "x < allocated ?rp" by simp
  next
    fix x assume "registering ?rp x"
    with registry_ok_besidesD(8) [OF ok0, of x]
    show "x < allocated ?rp \<and> signal (objects ?rp x) = None" by simp
  qed
  from remove_ok [OF this rm] show ?thesis by (simp add: registry_ok_def)
qed

lemma perform_ok:
  assumes "registry_ok N r" "perform N x r = Returns r'"
  shows "registry_ok N r'"
proof (cases x)
  case (Start rid sts)
  with assms Start_ok [of N r rid sts] show ?thesis by auto
next
  case (Register rid sts e)
  with assms Register_ok [of N r rid sts e r'] show ?thesis by simp
next
  case (Trigger ri)
  with assms Trigger_ok [of N r ri r'] show ?thesis by simp
next
  case (Receive e)
  with assms Receive_ok [of N r e] show ?thesis by auto
next
  case (Timeout e)
  with assms Timeout_ok [of N r e] show ?thesis by auto
next
  case (Cleanup rid e)
  with assms Cleanup_ok [of N r rid e r'] show ?thesis by simp
qed

lemma perform_all_ok:
  "registry_ok N r \<Longrightarrow> perform_all N xs r = Returns r' \<Longrightarrow> registry_ok N r'"
proof (induction xs arbitrary: r)
  case Nil
  then show ?case by simp
next
  case (Cons x xs)
  from Cons.prems(2) obtain r1 where r1: "perform N x r = Returns r1"
    and rest: "perform_all N xs r1 = Returns r'"
    by (auto split: outcome.splits)
  from Cons.IH [OF perform_ok [OF Cons.prems(1) r1] rest] show ?case .
qed

text \<open>
  Every registry reached from a new one by the operations is well-formed,
  and on a well-formed registry no send of \<open>TriggerRoundEvent\<close> blocks.
\<close>

lemma reachable_registry_ok:
  assumes "perform_all N xs NewRoundEvents = Returns r"
  shows "registry_ok N r"
proof -
  have "registry_ok N NewRoundEvents"
    by (simp add: registry_ok_def registry_ok_besides_def NewRoundEvents_def)
  from perform_all_ok [OF this assms] show ?thesis .
qed

lemma remove_all_not_Blocks: "remove_all N rid es r \<noteq> Blocks"
proof (induction es arbitrary: r)
  case Nil
  then show ?case by simp
next
  case (Cons e es)
  have "RoundEvents_remove N rid e r \<noteq> Blocks"
    by (simp add: RoundEvents_remove_def split: option.splits)
  with Cons show ?case by (simp split: outcome.splits)
qed

lemma Trigger_not_Blocks:
  assumes "registry_ok N r"
  shows "TriggerRoundEvent N ri r \<noteq> Blocks"
proof (cases "callbacks r (ID ri)")
  case None
  then show ?thesis by (simp add: TriggerRoundEvent_def)
next
  case (Some arr)
  show ?thesis
  proof (cases "unat (State ri) < N \<and> arr ! unat (State ri) \<noteq> []")
    case False
    with Some show ?thesis by (auto simp: TriggerRoundEvent_def Let_def)
  next
    case True
    then have k: "unat (State ri) < N" and ne: "arr ! unat (State ri) \<noteq> []" by simp_all
    from registry_ok_bucket(2) [OF assms Some k] have d: "distinct (arr ! unat (State ri))" .
    from registry_ok_bucket(3) [OF assms Some k]
    have n: "\<forall>e \<in> set (arr ! unat (State ri)). signal (objects r e) = None" by blast
    from Trigger_unfold [OF Some k ne d n] obtain h where
      "TriggerRoundEvent N ri r =
           remove_all N (ID ri) (arr ! unat (State ri)) (r\<lparr>objects := h\<rparr>)"
      by blast
    with remove_all_not_Blocks show ?thesis by simp
  qed
qed

text \<open>
  A started \<open>Remove(rid, e)\<close> that runs on a well-formed registry after the
  registration of the object, however much later, returns and leaves the
  object in no bucket.
\<close>

lemma Cleanup_unregisters:
  assumes ok: "registry_ok N r" and pending: "(rid, e) \<in> set (removes r)"
    and registered: "\<not> registering r e"
  shows "\<exists>r'. Remove_runs N rid e r = Returns r' \<and> unregistered e r'"
proof -
  let ?rp = "r\<lparr>removes := remove1 (rid, e) (removes r)\<rparr>"
  from ok pending have e: "e < allocated r" and clo: "closure_rid r e = rid"
    unfolding registry_ok_def registry_ok_besides_def by auto
  from registry_ok_states [OF ok e registered]
  have v: "\<forall>s \<in> set (states (objects ?rp e)). unat s < N" by simp
  from remove_from [OF v, of rid] obtain r' where
    rm: "RoundEvents_remove N rid e ?rp = Returns r'"
    by blast
  then have ra: "remove_all N rid [e] ?rp = Returns r'" by simp
  from v have vp: "\<forall>x \<in> set [e]. \<forall>s \<in> set (states (objects ?rp x)). unat s < N" by simp
  have only: "\<forall>arr. callbacks ?rp rid = Some arr \<longrightarrow>
         (\<forall>i < length arr. e \<in> set (arr ! i) \<longrightarrow> i \<in> unat ` set (states (objects ?rp e)))"
  proof (intro allI impI)
    fix arr i assume a: "callbacks ?rp rid = Some arr" and i: "i < length arr"
      and x: "e \<in> set (arr ! i)"
    from a have c: "callbacks r rid = Some arr" by simp
    from registry_ok_bucket(1) [OF ok c] i have iN: "i < N" by simp
    from registry_ok_bucket(3) [OF ok c iN x]
    show "i \<in> unat ` set (states (objects ?rp e))" by simp
  qed
  have pre: "(e \<in> set [e] \<and>
      (\<forall>arr. callbacks ?rp rid = Some arr \<longrightarrow>
         (\<forall>i < length arr. e \<in> set (arr ! i) \<longrightarrow>
            i \<in> unat ` set (states (objects ?rp e))))) \<or>
    (\<forall>arr. callbacks ?rp rid = Some arr \<longrightarrow> (\<forall>i < length arr. e \<notin> set (arr ! i)))"
  proof (intro disjI1 conjI)
    show "e \<in> set [e]" by simp
    show "\<forall>arr. callbacks ?rp rid = Some arr \<longrightarrow>
         (\<forall>i < length arr. e \<in> set (arr ! i) \<longrightarrow>
            i \<in> unat ` set (states (objects ?rp e)))"
      by (rule only)
  qed
  from remove_all_absent [OF vp pre ra]
  have gone: "\<forall>arr. callbacks r' rid = Some arr \<longrightarrow> (\<forall>i < length arr. e \<notin> set (arr ! i))" .
  note fr = remove_frame [OF rm]
  have "\<forall>rid' arr. callbacks r' rid' = Some arr \<longrightarrow> (\<forall>i < length arr. e \<notin> set (arr ! i))"
  proof (intro allI impI)
    fix rid' arr i assume a: "callbacks r' rid' = Some arr" and i: "i < length arr"
    show "e \<notin> set (arr ! i)"
    proof (cases "rid' = rid")
      case True
      with gone a i show ?thesis by blast
    next
      case False
      with fr a have c: "callbacks r rid' = Some arr" by simp
      from registry_ok_bucket(1) [OF ok c] i have iN: "i < N" by simp
      show ?thesis
      proof
        assume "e \<in> set (arr ! i)"
        from registry_ok_bucket(3) [OF ok c iN this] clo False show False by simp
      qed
    qed
  qed
  from absent_unregistered [OF this] have "unregistered e r'" .
  moreover from pending rm have "Remove_runs N rid e r = Returns r'"
    by (simp add: Remove_runs_def RoundEvents_Remove_def)
  ultimately show ?thesis by blast
qed

lemma Trigger_delivers:
  assumes ok: "registry_ok N r"
    and cb: "callbacks r (ID ri) = Some arr"
    and k: "unat (State ri) < N"
    and e: "e \<in> set (arr ! unat (State ri))"
  shows "\<exists>r2. TriggerRoundEvent N ri r = Returns r2 \<and> registry_ok N r2 \<and>
           signal (objects r2 e) = Some ri \<and> unregistered e r2 \<and>
           invoked r2 = invoked r \<and> selecting r2 = selecting r \<and>
           allocated r2 = allocated r \<and> closure_rid r2 = closure_rid r \<and>
           registering r2 = registering r \<and>
           (callbacks r2 (ID ri) = None \<or>
            (\<exists>arr'. callbacks r2 (ID ri) = Some arr' \<and> arr' ! unat (State ri) = []))"
proof -
  let ?k = "unat (State ri)"
  let ?es = "arr ! ?k"
  from e have ne: "?es \<noteq> []" by auto
  from registry_ok_bucket(2) [OF ok cb k] have d: "distinct ?es" .
  from registry_ok_bucket(3) [OF ok cb k]
  have n: "\<forall>x \<in> set ?es. signal (objects r x) = None" by blast
  from Trigger_unfold [OF cb k ne d n] obtain h where
    h: "\<forall>x. h x = (if x \<in> set ?es then (objects r x)\<lparr>signal := Some ri\<rparr> else objects r x)"
    and trig: "TriggerRoundEvent N ri r = remove_all N (ID ri) ?es (r\<lparr>objects := h\<rparr>)"
    by blast
  let ?rh = "r\<lparr>objects := h\<rparr>"
  from ok have ok0: "registry_ok_besides {} N r" by (simp add: registry_ok_def)
  from h have "\<forall>x. states (h x) = states (objects r x)" "\<forall>x. x \<notin> set ?es \<longrightarrow> h x = objects r x"
    by simp_all
  moreover from registry_ok_bucket(3) [OF ok cb k]
  have "\<forall>x \<in> set ?es. \<not> registering r x" by blast
  ultimately have okh: "registry_ok_besides (set ?es) N ?rh" by (rule sent_ok [OF ok0])
  from cb have cbh: "callbacks ?rh (ID ri) = Some arr" by simp
  have valid: "\<forall>x \<in> set ?es. (\<forall>s \<in> set (states (objects ?rh x)). unat s < N) \<and>
            ?k \<in> unat ` set (states (objects ?rh x))"
  proof
    fix x assume x: "x \<in> set ?es"
    from besides_bucket(4,5) [OF okh cbh k x]
    show "(\<forall>s \<in> set (states (objects ?rh x)). unat s < N) \<and>
            ?k \<in> unat ` set (states (objects ?rh x))"
      by simp
  qed
  from registry_ok_bucket(1) [OF ok cb] cbh
  have start: "callbacks ?rh (ID ri) = None \<or>
           (\<exists>arr0. callbacks ?rh (ID ri) = Some arr0 \<and> length arr0 = N \<and>
              set (arr0 ! ?k) \<subseteq> set ?es)"
    by simp
  from remove_all_empties [OF k valid start] obtain r2 where
    r2: "remove_all N (ID ri) ?es ?rh = Returns r2"
    and empty: "callbacks r2 (ID ri) = None \<or>
            (\<exists>arr'. callbacks r2 (ID ri) = Some arr' \<and> length arr' = N \<and> arr' ! ?k = [])"
    by blast
  from trig r2 have t: "TriggerRoundEvent N ri r = Returns r2" by simp
  from Trigger_ok [OF ok t] have ok2: "registry_ok N r2" .
  note fr = remove_all_frame [OF r2]
  from fr h e have sig2: "signal (objects r2 e) = Some ri" by simp
  have unreg: "unregistered e r2"
    unfolding unregistered_def
  proof (intro allI impI ballI)
    fix rid' arr' b assume a: "callbacks r2 rid' = Some arr'" and b: "b \<in> set arr'"
    from b obtain i where i: "i < length arr'" and bi: "arr' ! i = b"
      by (auto simp: in_set_conv_nth)
    from registry_ok_bucket(1) [OF ok2 a] i have iN: "i < N" by simp
    show "e \<notin> set b"
    proof
      assume "e \<in> set b"
      with bi have x: "e \<in> set (arr' ! i)" by simp
      from registry_ok_bucket(3) [OF ok2 a iN x] have "signal (objects r2 e) = None" by simp
      with sig2 show False by simp
    qed
  qed
  from empty have empty': "callbacks r2 (ID ri) = None \<or>
            (\<exists>arr'. callbacks r2 (ID ri) = Some arr' \<and> arr' ! ?k = [])"
    by blast
  from fr have "invoked r2 = invoked r" "selecting r2 = selecting r"
    "allocated r2 = allocated r" "closure_rid r2 = closure_rid r"
    "registering r2 = registering r"
    by simp_all
  with t ok2 sig2 unreg empty' show ?thesis by blast
qed

lemma perform_waiting:
  assumes "perform N x r = Returns r'" "e < allocated r"
  shows "e < allocated r' \<and> closure_rid r' e = closure_rid r e \<and>
         (registering r' e \<longrightarrow> registering r e) \<and>
         (selecting r' e \<longrightarrow> selecting r e \<and> times_invoked e r' = times_invoked e r)"
proof (cases x)
  case (Start rid sts)
  with assms(1) have "r' = AddRoundEvent_start rid sts r" by simp
  with AddRoundEvent_start_frame [of rid sts r] assms(2) show ?thesis
    by (simp add: times_invoked_def)
next
  case (Register rid sts e')
  with assms(1) have "AddRoundEvent_register N rid sts e' r = Returns r'" by simp
  from AddRoundEvent_register_frame [OF this] assms(2) show ?thesis
    by (simp add: times_invoked_def)
next
  case (Trigger ri)
  with assms(1) have "TriggerRoundEvent N ri r = Returns r'" by simp
  from Trigger_frame [OF this] assms(2) show ?thesis
    by (simp add: times_invoked_def)
next
  case (Receive e')
  with assms show ?thesis
    by (auto simp: Signal_received_def times_invoked_def split: option.splits if_splits)
next
  case (Timeout e')
  with assms show ?thesis
    by (auto simp: Timeout_elapsed_def times_invoked_def split: if_splits)
next
  case (Cleanup rid e')
  with assms(1) have "Remove_runs N rid e' r = Returns r'" by simp
  from Remove_runs_frame [OF this] assms(2) show ?thesis
    by (simp add: times_invoked_def)
qed

lemma perform_all_waiting:
  "perform_all N xs r = Returns r' \<Longrightarrow> e < allocated r \<Longrightarrow>
   e < allocated r' \<and> closure_rid r' e = closure_rid r e \<and>
   (registering r' e \<longrightarrow> registering r e) \<and>
   (selecting r' e \<longrightarrow> selecting r e \<and> times_invoked e r' = times_invoked e r)"
proof (induction xs arbitrary: r)
  case Nil
  then show ?case by simp
next
  case (Cons x xs)
  from Cons.prems(1) obtain r1 where r1: "perform N x r = Returns r1"
    and rest: "perform_all N xs r1 = Returns r'"
    by (auto split: outcome.splits)
  from perform_waiting [OF r1 Cons.prems(2)]
  have s1: "e < allocated r1" "closure_rid r1 e = closure_rid r e"
    "registering r1 e \<longrightarrow> registering r e"
    "selecting r1 e \<longrightarrow> selecting r e \<and> times_invoked e r1 = times_invoked e r"
    by simp_all
  from Cons.IH [OF rest s1(1)] s1(2,3,4) show ?case by auto
qed

lemma times_invoked_calls: "times_invoked e r = length (calls_of e r)"
  by (simp add: times_invoked_def calls_of_def)

lemma registry_ok_calls:
  "registry_ok N r \<Longrightarrow> calls_of (allocated r) r = []"
  using registry_ok_invoked [of N r] by (simp add: times_invoked_calls)

text \<open>
  An object that has been registered and is in no bucket stays so: nothing
  registers an object a second time.
\<close>

lemma unregistered_subset:
  assumes "unregistered e r"
    and "\<And>rid arr'. callbacks r' rid = Some arr' \<Longrightarrow>
       \<exists>arr. callbacks r rid = Some arr \<and> length arr' = length arr \<and>
           (\<forall>i < length arr. set (arr' ! i) \<subseteq> set (arr ! i) \<and>
              (distinct (arr ! i) \<longrightarrow> distinct (arr' ! i)))"
  shows "unregistered e r'"
  unfolding unregistered_def
proof (intro allI impI ballI)
  fix rid arr' b assume a: "callbacks r' rid = Some arr'" and b: "b \<in> set arr'"
  from assms(2) [OF a] obtain arr where arr: "callbacks r rid = Some arr"
    "length arr' = length arr" "\<forall>i < length arr. set (arr' ! i) \<subseteq> set (arr ! i)"
    by blast
  from b obtain i where i: "i < length arr'" "arr' ! i = b" by (auto simp: in_set_conv_nth)
  with arr(2,3) have "set b \<subseteq> set (arr ! i)" by auto
  moreover from i arr(2) have "arr ! i \<in> set arr" by simp
  with assms(1) arr(1) have "e \<notin> set (arr ! i)" unfolding unregistered_def by blast
  ultimately show "e \<notin> set b" by blast
qed

lemma remove_all_buckets:
  "remove_all N rid es r = Returns r' \<Longrightarrow> callbacks r' rid' = Some arr' \<Longrightarrow>
   \<exists>arr. callbacks r rid' = Some arr \<and> length arr' = length arr \<and>
           (\<forall>i < length arr. set (arr' ! i) \<subseteq> set (arr ! i) \<and>
              (distinct (arr ! i) \<longrightarrow> distinct (arr' ! i)))"
proof (induction es arbitrary: r)
  case Nil
  then show ?case by simp
next
  case (Cons e es)
  from Cons.prems(1) obtain r1 where r1: "RoundEvents_remove N rid e r = Returns r1"
    and rest: "remove_all N rid es r1 = Returns r'"
    by (auto split: outcome.splits)
  from Cons.IH [OF rest Cons.prems(2)] obtain arr1 where
    a1: "callbacks r1 rid' = Some arr1" "length arr' = length arr1"
      "\<forall>i < length arr1. set (arr' ! i) \<subseteq> set (arr1 ! i) \<and>
              (distinct (arr1 ! i) \<longrightarrow> distinct (arr' ! i))"
    by blast
  from remove_buckets [OF r1 a1(1)] obtain arr where
    a: "callbacks r rid' = Some arr" "length arr1 = length arr"
      "\<forall>i < length arr. set (arr1 ! i) \<subseteq> set (arr ! i) \<and>
              (distinct (arr ! i) \<longrightarrow> distinct (arr1 ! i))"
    by blast
  have "\<forall>i < length arr. set (arr' ! i) \<subseteq> set (arr ! i) \<and>
              (distinct (arr ! i) \<longrightarrow> distinct (arr' ! i))"
  proof (intro allI impI)
    fix i assume i: "i < length arr"
    with a(2,3) a1(3) show "set (arr' ! i) \<subseteq> set (arr ! i) \<and>
              (distinct (arr ! i) \<longrightarrow> distinct (arr' ! i))"
      by auto
  qed
  with a(1,2) a1(2) show ?case by simp
qed

lemma Trigger_buckets:
  assumes "TriggerRoundEvent N ri r = Returns r'" "callbacks r' rid' = Some arr'"
  shows "\<exists>arr. callbacks r rid' = Some arr \<and> length arr' = length arr \<and>
           (\<forall>i < length arr. set (arr' ! i) \<subseteq> set (arr ! i) \<and>
              (distinct (arr ! i) \<longrightarrow> distinct (arr' ! i)))"
proof (cases "callbacks r (ID ri)")
  case None
  with assms show ?thesis by (simp add: TriggerRoundEvent_def)
next
  case (Some arr)
  show ?thesis
  proof (cases "unat (State ri) < N \<and> length (arr ! unat (State ri)) \<noteq> 0")
    case False
    with assms Some have "r' = r"
      by (auto simp: TriggerRoundEvent_def Let_def split: if_splits)
    with assms(2) show ?thesis by simp
  next
    case True
    with assms Some obtain h where
      "remove_all N (ID ri) (arr ! unat (State ri)) (r\<lparr>objects := h\<rparr>) = Returns r'"
      by (auto simp: TriggerRoundEvent_def Let_def split: option.splits)
    from remove_all_buckets [OF this assms(2)] show ?thesis by simp
  qed
qed

lemma Remove_runs_buckets:
  assumes "Remove_runs N rid e r = Returns r'" "callbacks r' rid' = Some arr'"
  shows "\<exists>arr. callbacks r rid' = Some arr \<and> length arr' = length arr \<and>
           (\<forall>i < length arr. set (arr' ! i) \<subseteq> set (arr ! i) \<and>
              (distinct (arr ! i) \<longrightarrow> distinct (arr' ! i)))"
proof (cases "(rid, e) \<in> set (removes r)")
  case True
  with assms(1)
  have "RoundEvents_remove N rid e (r\<lparr>removes := remove1 (rid, e) (removes r)\<rparr>) = Returns r'"
    by (simp add: Remove_runs_def RoundEvents_Remove_def)
  from remove_buckets [OF this assms(2)] show ?thesis by simp
next
  case False
  with assms show ?thesis by (simp add: Remove_runs_def)
qed

lemma Register_unregistered:
  assumes "AddRoundEvent_register N rid sts e' r = Returns r'" "unregistered e r"
    "\<not> registering r e"
  shows "unregistered e r'"
proof (cases "registering r e' \<and> closure_rid r e' = rid \<and> states (objects r e') = sts")
  case False
  with assms(1) have "r' = r" by (auto simp: AddRoundEvent_register_def)
  with assms(2) show ?thesis by simp
next
  case True
  with assms(3) have ne: "e \<noteq> e'" by auto
  let ?arr0 = "case callbacks r rid of None \<Rightarrow> replicate N [] | Some arr \<Rightarrow> arr"
  from assms(1) True obtain arr1 where
    reg: "register_states N e' sts ?arr0 = Some arr1"
    and cb: "callbacks r' = (callbacks r)(rid \<mapsto> arr1)"
    by (auto simp: AddRoundEvent_register_def split: option.splits)
  from register_states_valid [OF reg] have v: "\<forall>s \<in> set sts. unat s < N" .
  from register_states_Some [OF v, of e' ?arr0] reg
  have l: "length arr1 = length ?arr0"
    and s: "\<forall>i < length ?arr0. set (arr1 ! i) =
           set (?arr0 ! i) \<union> (if i \<in> unat ` set sts then {e'} else {})"
    by auto
  have old: "\<forall>i < length ?arr0. e \<notin> set (?arr0 ! i)"
  proof (cases "callbacks r rid")
    case None
    then show ?thesis by simp
  next
    case (Some arr)
    with assms(2) have "\<forall>b \<in> set arr. e \<notin> set b" unfolding unregistered_def by blast
    with Some show ?thesis by simp
  qed
  show ?thesis
    unfolding unregistered_def
  proof (intro allI impI ballI)
    fix rid' arr b assume a: "callbacks r' rid' = Some arr" and b: "b \<in> set arr"
    show "e \<notin> set b"
    proof (cases "rid' = rid")
      case False
      with a cb have "callbacks r rid' = Some arr" by simp
      with assms(2) b show ?thesis unfolding unregistered_def by blast
    next
      case True
      with a cb have "arr = arr1" by simp
      with b obtain i where i: "i < length arr1" "arr1 ! i = b"
        by (auto simp: in_set_conv_nth)
      with l s have "set b = set (?arr0 ! i) \<union> (if i \<in> unat ` set sts then {e'} else {})"
        by auto
      with old i(1) l ne show ?thesis by (auto split: if_splits)
    qed
  qed
qed

lemma perform_gone:
  assumes "perform N x r = Returns r'" "e < allocated r" "\<not> registering r e"
    "unregistered e r"
  shows "\<not> registering r' e \<and> unregistered e r'"
proof (cases x)
  case (Start rid sts)
  with assms(1) have "r' = AddRoundEvent_start rid sts r" by simp
  with AddRoundEvent_start_frame [of rid sts r] assms(2,3,4) show ?thesis
    by (simp add: unregistered_def)
next
  case (Register rid sts e')
  with assms(1) have a: "AddRoundEvent_register N rid sts e' r = Returns r'" by simp
  from AddRoundEvent_register_frame [OF a] assms(3) have "\<not> registering r' e" by blast
  with Register_unregistered [OF a assms(4,3)] show ?thesis by simp
next
  case (Trigger ri)
  with assms(1) have t: "TriggerRoundEvent N ri r = Returns r'" by simp
  have "unregistered e r'"
    by (rule unregistered_subset [OF assms(4)]) (rule Trigger_buckets [OF t])
  with Trigger_frame [OF t] assms(3) show ?thesis by simp
next
  case (Receive e')
  with assms(1) have "r' = Signal_received e' r" by simp
  moreover have "registering (Signal_received e' r) = registering r"
    by (simp add: Signal_received_def split: option.splits)
  ultimately show ?thesis using assms(3,4) Signal_received_callbacks [of e' r]
    by (simp add: unregistered_def)
next
  case (Timeout e')
  with assms(1) have "r' = Timeout_elapsed e' r" by simp
  moreover have "registering (Timeout_elapsed e' r) = registering r"
    by (simp add: Timeout_elapsed_def)
  ultimately show ?thesis using assms(3,4) Timeout_elapsed_callbacks [of e' r]
    by (simp add: unregistered_def)
next
  case (Cleanup rid e')
  with assms(1) have c: "Remove_runs N rid e' r = Returns r'" by simp
  have "unregistered e r'"
    by (rule unregistered_subset [OF assms(4)]) (rule Remove_runs_buckets [OF c])
  with Remove_runs_frame [OF c] assms(3) show ?thesis by simp
qed

lemma perform_all_gone:
  "perform_all N xs r = Returns r' \<Longrightarrow> e < allocated r \<Longrightarrow> \<not> registering r e \<Longrightarrow>
   unregistered e r \<Longrightarrow> \<not> registering r' e \<and> unregistered e r'"
proof (induction xs arbitrary: r)
  case Nil
  then show ?case by simp
next
  case (Cons x xs)
  from Cons.prems(1) obtain r1 where r1: "perform N x r = Returns r1"
    and rest: "perform_all N xs r1 = Returns r'"
    by (auto split: outcome.splits)
  from perform_gone [OF r1 Cons.prems(2,3,4)]
  have g1: "\<not> registering r1 e" "unregistered e r1" by simp_all
  from perform_waiting [OF r1 Cons.prems(2)] have "e < allocated r1" by simp
  from Cons.IH [OF rest this g1] show ?case .
qed

text \<open>
  The channel of an object that is still to be registered, or is in a
  bucket, is empty.
\<close>

lemma registered_unsignalled:
  assumes "registry_ok N r" "registering r e \<or> \<not> unregistered e r"
  shows "signal (objects r e) = None"
proof (cases "registering r e")
  case True
  from assms(1) have "registry_ok_besides {} N r" by (simp add: registry_ok_def)
  from registry_ok_besidesD(8) [OF this True] show ?thesis by simp
next
  case False
  with assms(2) obtain rid arr b where a: "callbacks r rid = Some arr" "b \<in> set arr" "e \<in> set b"
    unfolding unregistered_def by blast
  from a(2) obtain i where i: "i < length arr" "arr ! i = b" by (auto simp: in_set_conv_nth)
  from registry_ok_bucket(1) [OF assms(1) a(1)] i have iN: "i < N" by simp
  from i a(3) have "e \<in> set (arr ! i)" by simp
  from registry_ok_bucket(3) [OF assms(1) a(1) iN this] show ?thesis by simp
qed

text \<open>
  Until a round is delivered to it, the goroutine of an object either still
  waits and has called nothing, or has taken its timeout case and has
  called the callback once, with \<open>timedOut = true\<close> and a round that carries
  the round id only.
\<close>

lemma perform_other:
  assumes "perform N x r = Returns r'" "e < allocated r" "x \<noteq> Receive e" "x \<noteq> Timeout e"
  shows "selecting r' e = selecting r e \<and> calls_of e r' = calls_of e r"
proof (cases x)
  case (Start rid' sts)
  with assms(1) have "r' = AddRoundEvent_start rid' sts r" by simp
  with AddRoundEvent_start_frame [of rid' sts r] assms(2) show ?thesis
    by (simp add: calls_of_def)
next
  case (Register rid' sts e')
  with assms(1) have "AddRoundEvent_register N rid' sts e' r = Returns r'" by simp
  from AddRoundEvent_register_frame [OF this] show ?thesis
    by (simp add: calls_of_def)
next
  case (Trigger ri)
  with assms(1) have "TriggerRoundEvent N ri r = Returns r'" by simp
  from Trigger_frame [OF this] show ?thesis
    by (simp add: calls_of_def)
next
  case (Receive e')
  with assms(1,3) have "r' = Signal_received e' r" "e' \<noteq> e" by simp_all
  then show ?thesis
    by (auto simp: Signal_received_def calls_of_def split: option.splits)
next
  case (Timeout e')
  with assms(1,4) have "r' = Timeout_elapsed e' r" "e' \<noteq> e" by simp_all
  then show ?thesis
    by (auto simp: Timeout_elapsed_def calls_of_def)
next
  case (Cleanup rid' e')
  with assms(1) have "Remove_runs N rid' e' r = Returns r'" by simp
  from Remove_runs_frame [OF this] show ?thesis
    by (simp add: calls_of_def)
qed

lemma Timeout_elapsed_calls:
  "selecting r e \<Longrightarrow>
   \<not> selecting (Timeout_elapsed e r) e \<and>
   calls_of e (Timeout_elapsed e r) =
     calls_of e r @ [(\<lparr>ID = closure_rid r e, State = 0, Timestamps = []\<rparr>, True)] \<and>
   invoked (Timeout_elapsed e r) =
     invoked r @ [(e, \<lparr>ID = closure_rid r e, State = 0, Timestamps = []\<rparr>, True)] \<and>
   (closure_rid r e, e) \<in> set (removes (Timeout_elapsed e r)) \<and>
   objects (Timeout_elapsed e r) = objects r"
  by (simp add: Timeout_elapsed_def calls_of_def)

lemma Signal_received_calls:
  "selecting r e \<Longrightarrow> signal (objects r e) = Some ri \<Longrightarrow>
   \<not> selecting (Signal_received e r) e \<and>
   calls_of e (Signal_received e r) = calls_of e r @ [(ri, False)] \<and>
   invoked (Signal_received e r) = invoked r @ [(e, ri, False)]"
  by (simp add: Signal_received_def calls_of_def)

lemma goroutine_finished:
  "\<not> selecting r e \<Longrightarrow> Timeout_elapsed e r = r \<and> Signal_received e r = r"
  by (simp add: Timeout_elapsed_def Signal_received_def)

lemma perform_undelivered:
  assumes "perform N x r = Returns r'" "e < allocated r" "signal (objects r e) = None"
    "closure_rid r e = rid"
    "if selecting r e then calls_of e r = []
     else calls_of e r = [(\<lparr>ID = rid, State = 0, Timestamps = []\<rparr>, True)]"
  shows "if selecting r' e then calls_of e r' = []
         else calls_of e r' = [(\<lparr>ID = rid, State = 0, Timestamps = []\<rparr>, True)]"
proof (cases "x = Receive e \<or> x = Timeout e")
  case False
  with perform_other [OF assms(1,2)]
  have "selecting r' e = selecting r e" "calls_of e r' = calls_of e r" by simp_all
  with assms(5) show ?thesis by simp
next
  case True
  then show ?thesis
  proof
    assume "x = Receive e"
    with assms(1,3) have "r' = r" by (auto simp: Signal_received_def)
    with assms(5) show ?thesis by simp
  next
    assume "x = Timeout e"
    with assms(1) have r': "r' = Timeout_elapsed e r" by simp
    show ?thesis
    proof (cases "selecting r e")
      case True
      with Timeout_elapsed_calls [OF True] assms(4,5) r' show ?thesis by simp
    next
      case False
      with goroutine_finished [OF False] r' assms(5) show ?thesis by simp
    qed
  qed
qed

lemma perform_all_undelivered:
  "perform_all N xs r = Returns r' \<Longrightarrow> registry_ok N r \<Longrightarrow> e < allocated r \<Longrightarrow>
   closure_rid r e = rid \<Longrightarrow>
   (if selecting r e then calls_of e r = []
    else calls_of e r = [(\<lparr>ID = rid, State = 0, Timestamps = []\<rparr>, True)]) \<Longrightarrow>
   registering r' e \<or> \<not> unregistered e r' \<Longrightarrow>
   (if selecting r' e then calls_of e r' = []
    else calls_of e r' = [(\<lparr>ID = rid, State = 0, Timestamps = []\<rparr>, True)])"
proof (induction xs arbitrary: r)
  case Nil
  from Nil(1) have "r' = r" by simp
  with Nil(5) show ?case by simp
next
  case (Cons x xs)
  from Cons.prems(1) obtain r1 where r1: "perform N x r = Returns r1"
    and rest: "perform_all N xs r1 = Returns r'"
    by (auto split: outcome.splits)
  have "registering r e \<or> \<not> unregistered e r"
  proof (rule ccontr)
    assume "\<not> (registering r e \<or> \<not> unregistered e r)"
    then have "\<not> registering r e" "unregistered e r" by simp_all
    from perform_all_gone [OF Cons.prems(1,3) this] Cons.prems(6) show False by simp
  qed
  from registered_unsignalled [OF Cons.prems(2) this] have n: "signal (objects r e) = None" .
  from perform_undelivered [OF r1 Cons.prems(3) n Cons.prems(4,5)]
  have c1: "if selecting r1 e then calls_of e r1 = []
    else calls_of e r1 = [(\<lparr>ID = rid, State = 0, Timestamps = []\<rparr>, True)]" .
  from perform_waiting [OF r1 Cons.prems(3)] Cons.prems(4)
  have w1: "e < allocated r1" "closure_rid r1 e = rid" by simp_all
  from Cons.IH [OF rest perform_ok [OF Cons.prems(2) r1] w1 c1 Cons.prems(6)] show ?case .
qed

text \<open>
  Once a round has been delivered to an object and the object taken out of
  the registry, nothing is sent to it again: its goroutine still waits with
  the round in the channel and nothing called, or it has called the
  callback exactly once, with the round delivered and \<open>timedOut = false\<close>
  when it took the receive case, with \<open>timedOut = true\<close> when it took the
  timeout case.
\<close>

lemma Trigger_objects:
  assumes "TriggerRoundEvent N ri r = Returns r'" "registry_ok N r" "unregistered e r"
  shows "objects r' e = objects r e"
proof (cases "callbacks r (ID ri)")
  case None
  with assms(1) show ?thesis by (simp add: TriggerRoundEvent_def)
next
  case (Some arr)
  show ?thesis
  proof (cases "unat (State ri) < N \<and> length (arr ! unat (State ri)) \<noteq> 0")
    case False
    with assms(1) Some have "r' = r"
      by (auto simp: TriggerRoundEvent_def Let_def split: if_splits)
    then show ?thesis by simp
  next
    case True
    with assms(1) Some obtain h where
      send: "send_all ri (arr ! unat (State ri)) (objects r) = Some h"
      and rm: "remove_all N (ID ri) (arr ! unat (State ri)) (r\<lparr>objects := h\<rparr>) = Returns r'"
      by (auto simp: TriggerRoundEvent_def Let_def split: option.splits)
    from registry_ok_bucket(1) [OF assms(2) Some] True
    have "arr ! unat (State ri) \<in> set arr" by simp
    with assms(3) Some have "e \<notin> set (arr ! unat (State ri))"
      unfolding unregistered_def by blast
    with send_all_result [OF send, of e] have "h e = objects r e" by simp
    with remove_all_frame [OF rm] show ?thesis by simp
  qed
qed

lemma perform_other_objects:
  assumes "perform N x r = Returns r'" "registry_ok N r" "e < allocated r" "unregistered e r"
    "x \<noteq> Receive e"
  shows "objects r' e = objects r e"
proof (cases x)
  case (Start rid' sts)
  with assms(1) have "r' = AddRoundEvent_start rid' sts r" by simp
  with AddRoundEvent_start_frame [of rid' sts r] assms(3) show ?thesis by simp
next
  case (Register rid' sts e')
  with assms(1) have "AddRoundEvent_register N rid' sts e' r = Returns r'" by simp
  from AddRoundEvent_register_frame [OF this] show ?thesis by simp
next
  case (Trigger ri')
  with assms(1) have t: "TriggerRoundEvent N ri' r = Returns r'" by simp
  from Trigger_objects [OF t assms(2,4)] show ?thesis .
next
  case (Receive e')
  with assms(1,5) have "r' = Signal_received e' r" "e' \<noteq> e" by simp_all
  then show ?thesis
    by (auto simp: Signal_received_def split: option.splits)
next
  case (Timeout e')
  with assms(1) have "r' = Timeout_elapsed e' r" by simp
  then show ?thesis by (simp add: Timeout_elapsed_def)
next
  case (Cleanup rid' e')
  with assms(1) have "Remove_runs N rid' e' r = Returns r'" by simp
  from Remove_runs_frame [OF this] show ?thesis by simp
qed

lemma perform_delivered:
  assumes "perform N x r = Returns r'" "registry_ok N r" "e < allocated r"
    "closure_rid r e = rid" "unregistered e r"
    "if selecting r e then calls_of e r = [] \<and> signal (objects r e) = Some ri
     else calls_of e r = [(ri, False)] \<or>
          calls_of e r = [(\<lparr>ID = rid, State = 0, Timestamps = []\<rparr>, True)]"
  shows "if selecting r' e then calls_of e r' = [] \<and> signal (objects r' e) = Some ri
         else calls_of e r' = [(ri, False)] \<or>
              calls_of e r' = [(\<lparr>ID = rid, State = 0, Timestamps = []\<rparr>, True)]"
proof (cases "x = Receive e \<or> x = Timeout e")
  case False
  with perform_other [OF assms(1,3)] perform_other_objects [OF assms(1,2,3,5)]
  have "selecting r' e = selecting r e" "calls_of e r' = calls_of e r"
    "objects r' e = objects r e"
    by simp_all
  with assms(6) show ?thesis by simp
next
  case True
  show ?thesis
  proof (cases "selecting r e")
    case False
    from True assms(1) goroutine_finished [OF False] have "r' = r" by auto
    with assms(6) show ?thesis by simp
  next
    case sel: True
    with assms(6) have c: "calls_of e r = []" and g: "signal (objects r e) = Some ri"
      by simp_all
    from True show ?thesis
    proof
      assume "x = Receive e"
      with assms(1) have "r' = Signal_received e r" by simp
      with Signal_received_calls [OF sel g] c show ?thesis by simp
    next
      assume "x = Timeout e"
      with assms(1) have "r' = Timeout_elapsed e r" by simp
      with Timeout_elapsed_calls [OF sel] c assms(4) show ?thesis by simp
    qed
  qed
qed

lemma perform_all_delivered:
  "perform_all N xs r = Returns r' \<Longrightarrow> registry_ok N r \<Longrightarrow> e < allocated r \<Longrightarrow>
   closure_rid r e = rid \<Longrightarrow> \<not> registering r e \<Longrightarrow> unregistered e r \<Longrightarrow>
   (if selecting r e then calls_of e r = [] \<and> signal (objects r e) = Some ri
    else calls_of e r = [(ri, False)] \<or>
         calls_of e r = [(\<lparr>ID = rid, State = 0, Timestamps = []\<rparr>, True)]) \<Longrightarrow>
   unregistered e r' \<and>
   (if selecting r' e then calls_of e r' = [] \<and> signal (objects r' e) = Some ri
    else calls_of e r' = [(ri, False)] \<or>
         calls_of e r' = [(\<lparr>ID = rid, State = 0, Timestamps = []\<rparr>, True)])"
proof (induction xs arbitrary: r)
  case Nil
  from Nil(1) have "r' = r" by simp
  with Nil(6,7) show ?case by simp
next
  case (Cons x xs)
  from Cons.prems(1) obtain r1 where r1: "perform N x r = Returns r1"
    and rest: "perform_all N xs r1 = Returns r'"
    by (auto split: outcome.splits)
  from perform_gone [OF r1 Cons.prems(3,5,6)]
  have g1: "\<not> registering r1 e" "unregistered e r1" by simp_all
  from perform_waiting [OF r1 Cons.prems(3)] Cons.prems(4)
  have w1: "e < allocated r1" "closure_rid r1 e = rid" by simp_all
  from perform_delivered [OF r1 Cons.prems(2,3,4,6,7)]
  have c1: "if selecting r1 e then calls_of e r1 = [] \<and> signal (objects r1 e) = Some ri
    else calls_of e r1 = [(ri, False)] \<or>
         calls_of e r1 = [(\<lparr>ID = rid, State = 0, Timestamps = []\<rparr>, True)]" .
  from Cons.IH [OF rest perform_ok [OF Cons.prems(2) r1] w1 g1 c1] show ?case .
qed

lemma Register_registers:
  assumes ok: "registry_ok N r" and valid: "\<forall>s \<in> set sts. unat s < N"
    and reg: "registering r e" "closure_rid r e = rid" "states (objects r e) = sts"
  shows "\<exists>r1 arr1. AddRoundEvent_register N rid sts e r = Returns r1 \<and> registry_ok N r1 \<and>
           callbacks r1 rid = Some arr1 \<and> (\<forall>s \<in> set sts. e \<in> set (arr1 ! unat s))"
proof -
  from registry_ok_bucket(1) [OF ok] have "\<forall>arr. callbacks r rid = Some arr \<longrightarrow> length arr = N"
    by blast
  from AddRoundEvent_register_Returns [OF valid this reg] obtain r1 arr1 where
    add: "AddRoundEvent_register N rid sts e r = Returns r1"
    and cb1: "callbacks r1 rid = Some arr1"
    and set1: "\<forall>i < N. set (arr1 ! i) =
                (case callbacks r rid of None \<Rightarrow> {} | Some arr \<Rightarrow> set (arr ! i)) \<union>
                (if i \<in> unat ` set sts then {e} else {}) \<and>
              ((case callbacks r rid of None \<Rightarrow> True | Some arr \<Rightarrow> distinct (arr ! i)) \<longrightarrow>
                 distinct (arr1 ! i))"
    by blast
  have "\<forall>s \<in> set sts. e \<in> set (arr1 ! unat s)"
  proof
    fix s assume s: "s \<in> set sts"
    with valid have "unat s < N" by blast
    with set1 s show "e \<in> set (arr1 ! unat s)" by auto
  qed
  with add cb1 Register_ok [OF ok add] show ?thesis by blast
qed

text \<open>
  C2 (as stated) fails: a subscription for round 10 and the states 3 and 4
  is registered and \<open>TriggerRoundEvent\<close> is called with round 10 in state 3,
  yet the callback is called with \<open>timedOut = true\<close> and never with
  \<open>timedOut = false\<close>.  In the first schedule the timeout elapses after the
  round was put into the channel and the \<open>select\<close> of the goroutine, with
  both of its cases ready, takes the timeout case; in the second the
  timeout elapses before the registration and the trigger.
\<close>

theorem TriggerRoundEvent_timed_out_counterexample:
  "invoked_after 7
     [Start 10 [3, 4], Register 10 [3, 4] 0, Trigger \<lparr>ID = 10, State = 3, Timestamps = []\<rparr>,
      Timeout 0, Receive 0, Trigger \<lparr>ID = 10, State = 3, Timestamps = []\<rparr>, Receive 0] =
     Returns [(0, \<lparr>ID = 10, State = 0, Timestamps = []\<rparr>, True)] \<and>
   invoked_after 7
     [Start 10 [3, 4], Timeout 0, Register 10 [3, 4] 0,
      Trigger \<lparr>ID = 10, State = 3, Timestamps = []\<rparr>, Receive 0] =
     Returns [(0, \<lparr>ID = 10, State = 0, Timestamps = []\<rparr>, True)]"
  by code_simp

text \<open>
  C2 (amended).  In a well-formed registry (every registry reached from a
  new one is), let \<open>AddRoundEvent\<close> be called for round \<open>rid\<close> and the states
  \<open>validStates\<close>, all of them states of the enumeration, and let \<open>ri\<close> be a
  round with that id in one of those states.  The registration, when it
  runs, puts the new object into the bucket of that state.  Whatever steps
  are taken after the start of the call, once the object is in that bucket
  \<open>TriggerRoundEvent ri\<close> returns, calls no callback itself, puts \<open>ri\<close> into
  the channel of the object and takes the object out of every bucket, and
  a second \<open>TriggerRoundEvent ri\<close> changes nothing.  If the goroutine of the
  object still waits at that moment, nothing has been called yet, its
  receive case calls the callback with \<open>(ri, false)\<close> and its timeout case
  calls it with \<open>timedOut = true\<close> and a round that carries the round id
  only; if it no longer waits, it has taken the timeout case before.
  Whatever steps follow the trigger, the object stays out of the registry
  and its callback is called exactly once in all: not at all while the
  goroutine waits, and once it has left the \<open>select\<close> exactly once, with
  \<open>(ri, false)\<close> or with the round id and \<open>timedOut = true\<close>.
\<close>

theorem TriggerRoundEvent_callback_once:
  assumes "registry_ok NUM_STATES r"
    and "\<forall>s \<in> set validStates. unat s < NUM_STATES"
    and "State ri \<in> set validStates"
    and "ID ri = rid"
  shows "\<exists>r1 arr1.
           AddRoundEvent_register NUM_STATES rid validStates (allocated r)
             (AddRoundEvent_start rid validStates r) = Returns r1 \<and>
           callbacks r1 rid = Some arr1 \<and> allocated r \<in> set (arr1 ! unat (State ri)) \<and>
           (\<forall>ops r' arr.
              perform_all NUM_STATES ops (AddRoundEvent_start rid validStates r) = Returns r' \<and>
              callbacks r' rid = Some arr \<and> allocated r \<in> set (arr ! unat (State ri)) \<longrightarrow>
              (\<exists>r2. TriggerRoundEvent NUM_STATES ri r' = Returns r2 \<and>
                 invoked r2 = invoked r' \<and> unregistered (allocated r) r2 \<and>
                 TriggerRoundEvent NUM_STATES ri r2 = Returns r2 \<and>
                 (if selecting r' (allocated r)
                  then calls_of (allocated r) r2 = [] \<and>
                       calls_of (allocated r) (Signal_received (allocated r) r2) =
                         [(ri, False)] \<and>
                       calls_of (allocated r) (Timeout_elapsed (allocated r) r2) =
                         [(\<lparr>ID = rid, State = 0, Timestamps = []\<rparr>, True)]
                  else calls_of (allocated r) r2 =
                         [(\<lparr>ID = rid, State = 0, Timestamps = []\<rparr>, True)]) \<and>
                 (\<forall>ops' r''.
                    perform_all NUM_STATES ops' r2 = Returns r'' \<longrightarrow>
                    unregistered (allocated r) r'' \<and>
                    (if selecting r'' (allocated r) then calls_of (allocated r) r'' = []
                     else calls_of (allocated r) r'' = [(ri, False)] \<or>
                          calls_of (allocated r) r'' =
                            [(\<lparr>ID = rid, State = 0, Timestamps = []\<rparr>, True)]))))"
proof -
  let ?e = "allocated r"
  let ?N = NUM_STATES
  let ?r0 = "AddRoundEvent_start rid validStates r"
  let ?z = "\<lparr>ID = rid, State = 0, Timestamps = []\<rparr> :: RoundInfo"
  note fr0 = AddRoundEvent_start_frame [of rid validStates r]
  from Start_ok [OF assms(1)] have ok0: "registry_ok ?N ?r0" .
  from fr0 have e0: "?e < allocated ?r0" "closure_rid ?r0 ?e = rid" "selecting ?r0 ?e"
    "registering ?r0 ?e" "states (objects ?r0 ?e) = validStates"
    by simp_all
  from registry_ok_calls [OF assms(1)] fr0 have c0: "calls_of ?e ?r0 = []"
    by (simp add: calls_of_def)
  with e0(3) have u0: "if selecting ?r0 ?e then calls_of ?e ?r0 = []
    else calls_of ?e ?r0 = [(?z, True)]"
    by simp
  from assms(2,3) have k: "unat (State ri) < ?N" by blast
  from Register_registers [OF ok0 assms(2) e0(4,2,5)] obtain r1 arr1 where
    add: "AddRoundEvent_register ?N rid validStates ?e ?r0 = Returns r1"
    and cb1: "callbacks r1 rid = Some arr1"
    and in1: "\<forall>s \<in> set validStates. ?e \<in> set (arr1 ! unat s)"
    by blast
  from in1 assms(3) have e1: "?e \<in> set (arr1 ! unat (State ri))" by blast
  have "\<forall>ops r' arr.
              perform_all ?N ops ?r0 = Returns r' \<and>
              callbacks r' rid = Some arr \<and> ?e \<in> set (arr ! unat (State ri)) \<longrightarrow>
              (\<exists>r2. TriggerRoundEvent ?N ri r' = Returns r2 \<and>
                 invoked r2 = invoked r' \<and> unregistered ?e r2 \<and>
                 TriggerRoundEvent ?N ri r2 = Returns r2 \<and>
                 (if selecting r' ?e
                  then calls_of ?e r2 = [] \<and>
                       calls_of ?e (Signal_received ?e r2) = [(ri, False)] \<and>
                       calls_of ?e (Timeout_elapsed ?e r2) = [(?z, True)]
                  else calls_of ?e r2 = [(?z, True)]) \<and>
                 (\<forall>ops' r''.
                    perform_all ?N ops' r2 = Returns r'' \<longrightarrow>
                    unregistered ?e r'' \<and>
                    (if selecting r'' ?e then calls_of ?e r'' = []
                     else calls_of ?e r'' = [(ri, False)] \<or> calls_of ?e r'' = [(?z, True)])))"
  proof (intro allI impI)
    fix ops r' arr
    assume h: "perform_all ?N ops ?r0 = Returns r' \<and>
              callbacks r' rid = Some arr \<and> ?e \<in> set (arr ! unat (State ri))"
    then have run: "perform_all ?N ops ?r0 = Returns r'"
      and cb': "callbacks r' (ID ri) = Some arr" and e': "?e \<in> set (arr ! unat (State ri))"
      using assms(4) by simp_all
    from perform_all_ok [OF ok0 run] have ok': "registry_ok ?N r'" .
    from perform_all_waiting [OF run e0(1)] e0(2)
    have al': "?e < allocated r'" and clo': "closure_rid r' ?e = rid" by simp_all
    from registry_ok_bucket(1) [OF ok' cb'] k have "arr ! unat (State ri) \<in> set arr" by simp
    with cb' e' have "\<not> unregistered ?e r'" unfolding unregistered_def by blast
    then have inreg: "registering r' ?e \<or> \<not> unregistered ?e r'" by simp
    from perform_all_undelivered [OF run ok0 e0(1,2) u0 inreg]
    have u': "if selecting r' ?e then calls_of ?e r' = []
      else calls_of ?e r' = [(?z, True)]" .
    from registry_ok_bucket(3) [OF ok' cb' k e'] have nreg: "\<not> registering r' ?e" by simp
    from Trigger_delivers [OF ok' cb' k e'] obtain r2 where
      trig: "TriggerRoundEvent ?N ri r' = Returns r2"
      and ok2: "registry_ok ?N r2"
      and sig2: "signal (objects r2 ?e) = Some ri"
      and unreg: "unregistered ?e r2"
      and inv2: "invoked r2 = invoked r'" and sel2: "selecting r2 = selecting r'"
      and al2: "allocated r2 = allocated r'"
      and clo2: "closure_rid r2 = closure_rid r'"
      and reg2: "registering r2 = registering r'"
      and empty: "callbacks r2 (ID ri) = None \<or>
            (\<exists>arr'. callbacks r2 (ID ri) = Some arr' \<and> arr' ! unat (State ri) = [])"
      by blast
    from inv2 have c2: "calls_of ?e r2 = calls_of ?e r'" by (simp add: calls_of_def)
    from al2 al' have a2: "?e < allocated r2" by simp
    from clo2 clo' have cl2: "closure_rid r2 ?e = rid" by simp
    from reg2 nreg have nreg2: "\<not> registering r2 ?e" by simp
    from Trigger_nothing [OF empty k] have again: "TriggerRoundEvent ?N ri r2 = Returns r2" .
    have now: "if selecting r' ?e
                  then calls_of ?e r2 = [] \<and>
                       calls_of ?e (Signal_received ?e r2) = [(ri, False)] \<and>
                       calls_of ?e (Timeout_elapsed ?e r2) = [(?z, True)]
                  else calls_of ?e r2 = [(?z, True)]"
    proof (cases "selecting r' ?e")
      case True
      with sel2 have s2: "selecting r2 ?e" by simp
      from True u' c2 have n2: "calls_of ?e r2 = []" by simp
      with Signal_received_calls [OF s2 sig2] Timeout_elapsed_calls [OF s2] cl2 True
      show ?thesis by simp
    next
      case False
      with u' c2 show ?thesis by simp
    qed
    have d2: "if selecting r2 ?e then calls_of ?e r2 = [] \<and> signal (objects r2 ?e) = Some ri
      else calls_of ?e r2 = [(ri, False)] \<or> calls_of ?e r2 = [(?z, True)]"
    proof (cases "selecting r' ?e")
      case True
      with sel2 u' c2 sig2 show ?thesis by simp
    next
      case False
      with sel2 u' c2 show ?thesis by simp
    qed
    have later: "\<forall>ops' r''.
                    perform_all ?N ops' r2 = Returns r'' \<longrightarrow>
                    unregistered ?e r'' \<and>
                    (if selecting r'' ?e then calls_of ?e r'' = []
                     else calls_of ?e r'' = [(ri, False)] \<or> calls_of ?e r'' = [(?z, True)])"
    proof (intro allI impI)
      fix ops' r'' assume run': "perform_all ?N ops' r2 = Returns r''"
      from perform_all_delivered [OF run' ok2 a2 cl2 nreg2 unreg d2]
      show "unregistered ?e r'' \<and>
                    (if selecting r'' ?e then calls_of ?e r'' = []
                     else calls_of ?e r'' = [(ri, False)] \<or> calls_of ?e r'' = [(?z, True)])"
        by (simp split: if_splits)
    qed
    from trig inv2 unreg again now later
    show "\<exists>r2. TriggerRoundEvent ?N ri r' = Returns r2 \<and>
                 invoked r2 = invoked r' \<and> unregistered ?e r2 \<and>
                 TriggerRoundEvent ?N ri r2 = Returns r2 \<and>
                 (if selecting r' ?e
                  then calls_of ?e r2 = [] \<and>
                       calls_of ?e (Signal_received ?e r2) = [(ri, False)] \<and>
                       calls_of ?e (Timeout_elapsed ?e r2) = [(?z, True)]
                  else calls_of ?e r2 = [(?z, True)]) \<and>
                 (\<forall>ops' r''.
                    perform_all ?N ops' r2 = Returns r'' \<longrightarrow>
                    unregistered ?e r'' \<and>
                    (if selecting r'' ?e then calls_of ?e r'' = []
                     else calls_of ?e r'' = [(ri, False)] \<or> calls_of ?e r'' = [(?z, True)]))"
      by blast
  qed
  with add cb1 e1 show ?thesis by blast
qed

theorem TriggerRoundEvent_callback_once_witness:
  "registry_ok 7 NewRoundEvents \<and>
   State \<lparr>ID = 10, State = 3, Timestamps = []\<rparr> \<in> set [3, 4 :: 32 word] \<and>
   (\<exists>r1 r2. AddRoundEvent_register 7 10 [3, 4] 0 (AddRoundEvent_start 10 [3, 4] NewRoundEvents) =
        Returns r1 \<and>
      TriggerRoundEvent 7 \<lparr>ID = 10, State = 3, Timestamps = []\<rparr> r1 = Returns r2 \<and>
      unregistered 0 r2 \<and>
      TriggerRoundEvent 7 \<lparr>ID = 10, State = 3, Timestamps = []\<rparr> r2 = Returns r2 \<and>
      calls_of 0 r2 = [] \<and>
      calls_of 0 (Signal_received 0 r2) = [(\<lparr>ID = 10, State = 3, Timestamps = []\<rparr>, False)] \<and>
      calls_of 0 (Timeout_elapsed 0 r2) = [(\<lparr>ID = 10, State = 0, Timestamps = []\<rparr>, True)]) \<and>
   (\<exists>r1 r2. perform_all 7 [Timeout 0, Register 10 [3, 4] 0]
        (AddRoundEvent_start 10 [3, 4] NewRoundEvents) = Returns r1 \<and>
      TriggerRoundEvent 7 \<lparr>ID = 10, State = 3, Timestamps = []\<rparr> r1 = Returns r2 \<and>
      unregistered 0 r2 \<and>
      calls_of 0 r2 = [(\<lparr>ID = 10, State = 0, Timestamps = []\<rparr>, True)]) \<and>
   invoked_after 7
     [Start 10 [3, 4], Register 10 [3, 4] 0, Trigger \<lparr>ID = 10, State = 3, Timestamps = []\<rparr>,
      Receive 0, Trigger \<lparr>ID = 10, State = 3, Timestamps = []\<rparr>, Receive 0, Timeout 0] =
     Returns [(0, \<lparr>ID = 10, State = 3, Timestamps = []\<rparr>, False)] \<and>
   entry_after 7
     [Start 10 [3, 4], Register 10 [3, 4] 0, Trigger \<lparr>ID = 10, State = 3, Timestamps = []\<rparr>] 10 =
     Returns None"
proof -
  let ?ri = "\<lparr>ID = 10, State = 3, Timestamps = []\<rparr> :: RoundInfo"
  let ?r0 = "AddRoundEvent_start 10 [3, 4] NewRoundEvents"
  have ok: "registry_ok 7 NewRoundEvents"
    by (simp add: registry_ok_def registry_ok_besides_def NewRoundEvents_def)
  have v: "\<forall>s \<in> set [3, 4 :: 32 word]. unat s < 7" by simp
  have st: "State ?ri \<in> set [3, 4 :: 32 word]" by simp
  have i: "ID ?ri = (10 :: 64 word)" by simp
  have a0: "allocated NewRoundEvents = 0" by (simp add: NewRoundEvents_def)
  from TriggerRoundEvent_callback_once [OF ok v st i] obtain r1 arr1 where
    add: "AddRoundEvent_register 7 10 [3, 4] (allocated NewRoundEvents) ?r0 = Returns r1"
    and cb1: "callbacks r1 10 = Some arr1"
    and e1: "allocated NewRoundEvents \<in> set (arr1 ! unat (State ?ri))"
    and later: "\<forall>ops r' arr.
              perform_all 7 ops ?r0 = Returns r' \<and>
              callbacks r' 10 = Some arr \<and>
              allocated NewRoundEvents \<in> set (arr ! unat (State ?ri)) \<longrightarrow>
              (\<exists>r2. TriggerRoundEvent 7 ?ri r' = Returns r2 \<and>
                 invoked r2 = invoked r' \<and> unregistered (allocated NewRoundEvents) r2 \<and>
                 TriggerRoundEvent 7 ?ri r2 = Returns r2 \<and>
                 (if selecting r' (allocated NewRoundEvents)
                  then calls_of (allocated NewRoundEvents) r2 = [] \<and>
                       calls_of (allocated NewRoundEvents)
                         (Signal_received (allocated NewRoundEvents) r2) = [(?ri, False)] \<and>
                       calls_of (allocated NewRoundEvents)
                         (Timeout_elapsed (allocated NewRoundEvents) r2) =
                         [(\<lparr>ID = 10, State = 0, Timestamps = []\<rparr>, True)]
                  else calls_of (allocated NewRoundEvents) r2 =
                         [(\<lparr>ID = 10, State = 0, Timestamps = []\<rparr>, True)]) \<and>
                 (\<forall>ops' r''.
                    perform_all 7 ops' r2 = Returns r'' \<longrightarrow>
                    unregistered (allocated NewRoundEvents) r'' \<and>
                    (if selecting r'' (allocated NewRoundEvents)
                     then calls_of (allocated NewRoundEvents) r'' = []
                     else calls_of (allocated NewRoundEvents) r'' = [(?ri, False)] \<or>
                          calls_of (allocated NewRoundEvents) r'' =
                            [(\<lparr>ID = 10, State = 0, Timestamps = []\<rparr>, True)])))"
    by blast
  from add a0 have p: "perform_all 7 [Register 10 [3, 4] 0] ?r0 = Returns r1" by simp
  from AddRoundEvent_register_frame [OF add] AddRoundEvent_start_frame [of 10 "[3, 4]" NewRoundEvents]
  have sel1: "selecting r1 (allocated NewRoundEvents)" by simp
  from later [rule_format, of "[Register 10 [3, 4] 0]" r1 arr1] p cb1 e1 sel1 obtain r2 where
    r2: "TriggerRoundEvent 7 ?ri r1 = Returns r2"
      "unregistered (allocated NewRoundEvents) r2"
      "TriggerRoundEvent 7 ?ri r2 = Returns r2"
      "calls_of (allocated NewRoundEvents) r2 = []"
      "calls_of (allocated NewRoundEvents) (Signal_received (allocated NewRoundEvents) r2) =
         [(?ri, False)]"
      "calls_of (allocated NewRoundEvents) (Timeout_elapsed (allocated NewRoundEvents) r2) =
         [(\<lparr>ID = 10, State = 0, Timestamps = []\<rparr>, True)]"
    by auto
  from add r2 a0 have "\<exists>r1 r2. AddRoundEvent_register 7 10 [3, 4] 0 ?r0 = Returns r1 \<and>
      TriggerRoundEvent 7 ?ri r1 = Returns r2 \<and> unregistered 0 r2 \<and>
      TriggerRoundEvent 7 ?ri r2 = Returns r2 \<and> calls_of 0 r2 = [] \<and>
      calls_of 0 (Signal_received 0 r2) = [(?ri, False)] \<and>
      calls_of 0 (Timeout_elapsed 0 r2) = [(\<lparr>ID = 10, State = 0, Timestamps = []\<rparr>, True)]"
    by auto
  moreover have "\<exists>r1 r2. perform_all 7 [Timeout 0, Register 10 [3, 4] 0] ?r0 = Returns r1 \<and>
      TriggerRoundEvent 7 ?ri r1 = Returns r2 \<and> unregistered 0 r2 \<and>
      calls_of 0 r2 = [(\<lparr>ID = 10, State = 0, Timestamps = []\<rparr>, True)]"
  proof -
    note fr0 = AddRoundEvent_start_frame [of 10 "[3, 4]" NewRoundEvents]
    let ?rt = "Timeout_elapsed 0 ?r0"
    from fr0 a0 have s0: "selecting ?r0 0" by simp
    from Timeout_ok [OF Start_ok [OF ok]] have okt: "registry_ok 7 ?rt" .
    from fr0 a0 s0 have "registering ?rt 0" "closure_rid ?rt 0 = 10"
      "states (objects ?rt 0) = [3, 4]"
      by (simp_all add: Timeout_elapsed_def)
    from Register_registers [OF okt v this] obtain r1' arr1' where
      reg: "AddRoundEvent_register 7 10 [3, 4] 0 ?rt = Returns r1'"
      and cb: "callbacks r1' 10 = Some arr1'"
      and inb: "\<forall>s \<in> set [3, 4 :: 32 word]. 0 \<in> set (arr1' ! unat s)"
      by blast
    from reg have run: "perform_all 7 [Timeout 0, Register 10 [3, 4] 0] ?r0 = Returns r1'"
      by simp
    from inb a0 have e: "allocated NewRoundEvents \<in> set (arr1' ! unat (State ?ri))" by simp
    from AddRoundEvent_register_frame [OF reg] Timeout_elapsed_calls [OF s0] a0
    have ns: "\<not> selecting r1' (allocated NewRoundEvents)" by simp
    from later [rule_format, of "[Timeout 0, Register 10 [3, 4] 0]" r1' arr1'] run cb e ns
    obtain r2' where "TriggerRoundEvent 7 ?ri r1' = Returns r2'"
      "unregistered (allocated NewRoundEvents) r2'"
      "calls_of (allocated NewRoundEvents) r2' =
         [(\<lparr>ID = 10, State = 0, Timestamps = []\<rparr>, True)]"
      by auto
    with run a0 show ?thesis by auto
  qed
  moreover have "invoked_after 7
     [Start 10 [3, 4], Register 10 [3, 4] 0, Trigger ?ri, Receive 0, Trigger ?ri, Receive 0,
      Timeout 0] = Returns [(0, ?ri, False)]"
    by code_simp
  moreover have "entry_after 7 [Start 10 [3, 4], Register 10 [3, 4] 0, Trigger ?ri] 10 =
     Returns None"
    by code_simp
  ultimately show ?thesis using ok st by blast
qed

text \<open>
  When the registration of the object has been made and nothing has been
  delivered by the time the timeout elapses, the goroutine calls the
  callback with a round whose \<open>ID\<close> is \<open>rid\<close> and whose other fields are zero,
  and with \<open>timedOut = true\<close>, and it starts \<open>Remove(rid, thisEvent)\<close>.  After
  that, whatever steps follow, this stays the only call of the callback,
  and the started \<open>Remove\<close>, whenever it runs, returns and leaves the object
  in no bucket of the registry, for good.
\<close>

lemma Timeout_after_registration:
  assumes "registry_ok NUM_STATES r"
  shows "\<forall>ops r'.
           perform_all NUM_STATES ops (AddRoundEvent_start rid validStates r) = Returns r' \<and>
           selecting r' (allocated r) \<and> \<not> registering r' (allocated r) \<longrightarrow>
           calls_of (allocated r) (Timeout_elapsed (allocated r) r') =
             [(\<lparr>ID = rid, State = 0, Timestamps = []\<rparr>, True)] \<and>
           (rid, allocated r) \<in> set (removes (Timeout_elapsed (allocated r) r')) \<and>
           (\<forall>ops' r''.
              perform_all NUM_STATES ops' (Timeout_elapsed (allocated r) r') = Returns r'' \<longrightarrow>
              calls_of (allocated r) r'' = [(\<lparr>ID = rid, State = 0, Timestamps = []\<rparr>, True)] \<and>
              ((rid, allocated r) \<in> set (removes r'') \<longrightarrow>
                 (\<exists>r3. Remove_runs NUM_STATES rid (allocated r) r'' = Returns r3 \<and>
                    unregistered (allocated r) r3 \<and>
                    (\<forall>ops'' r4. perform_all NUM_STATES ops'' r3 = Returns r4 \<longrightarrow>
                       unregistered (allocated r) r4))))"
proof (intro allI impI)
  let ?e = "allocated r"
  let ?N = NUM_STATES
  let ?r0 = "AddRoundEvent_start rid validStates r"
  let ?z = "\<lparr>ID = rid, State = 0, Timestamps = []\<rparr> :: RoundInfo"
  fix ops r'
  assume h: "perform_all ?N ops ?r0 = Returns r' \<and> selecting r' ?e \<and> \<not> registering r' ?e"
  then have run: "perform_all ?N ops ?r0 = Returns r'" and sel': "selecting r' ?e"
    and reg': "\<not> registering r' ?e"
    by simp_all
  note fr0 = AddRoundEvent_start_frame [of rid validStates r]
  from Start_ok [OF assms] have ok0: "registry_ok ?N ?r0" .
  from fr0 have e0: "?e < allocated ?r0" "closure_rid ?r0 ?e = rid" by simp_all
  from registry_ok_invoked [OF assms] fr0 have t0: "times_invoked ?e ?r0 = 0"
    by (simp add: times_invoked_def)
  from perform_all_ok [OF ok0 run] have ok': "registry_ok ?N r'" .
  from perform_all_waiting [OF run e0(1)] sel' t0 e0(2)
  have al': "?e < allocated r'" and clo': "closure_rid r' ?e = rid"
    and t': "times_invoked ?e r' = 0"
    by simp_all
  from t' have c': "calls_of ?e r' = []" by (simp add: times_invoked_calls)
  let ?r2 = "Timeout_elapsed ?e r'"
  from Timeout_elapsed_calls [OF sel'] clo' c'
  have s2: "\<not> selecting ?r2 ?e" and c2: "calls_of ?e ?r2 = [(?z, True)]"
    and p2: "(rid, ?e) \<in> set (removes ?r2)"
    by simp_all
  from Timeout_ok [OF ok'] have ok2: "registry_ok ?N ?r2" .
  from sel' al' reg' have a2: "?e < allocated ?r2" and g2: "\<not> registering ?r2 ?e"
    by (simp_all add: Timeout_elapsed_def)
  have "\<forall>ops' r''.
              perform_all ?N ops' ?r2 = Returns r'' \<longrightarrow>
              calls_of ?e r'' = [(?z, True)] \<and>
              ((rid, ?e) \<in> set (removes r'') \<longrightarrow>
                 (\<exists>r3. Remove_runs ?N rid ?e r'' = Returns r3 \<and> unregistered ?e r3 \<and>
                    (\<forall>ops'' r4. perform_all ?N ops'' r3 = Returns r4 \<longrightarrow>
                       unregistered ?e r4)))"
  proof (intro allI impI conjI)
    fix ops' r'' assume run': "perform_all ?N ops' ?r2 = Returns r''"
    from perform_all_finished [OF run' a2 s2] c2 show "calls_of ?e r'' = [(?z, True)]" by simp
    assume pend: "(rid, ?e) \<in> set (removes r'')"
    from perform_all_waiting [OF run' a2] g2
    have a'': "?e < allocated r''" and g'': "\<not> registering r'' ?e" by auto
    from Cleanup_unregisters [OF perform_all_ok [OF ok2 run'] pend g''] obtain r3 where
      r3: "Remove_runs ?N rid ?e r'' = Returns r3" and u3: "unregistered ?e r3"
      by blast
    from Remove_runs_frame [OF r3] a'' g''
    have a3: "?e < allocated r3" and g3: "\<not> registering r3 ?e" by simp_all
    have "\<forall>ops'' r4. perform_all ?N ops'' r3 = Returns r4 \<longrightarrow> unregistered ?e r4"
    proof (intro allI impI)
      fix ops'' r4 assume "perform_all ?N ops'' r3 = Returns r4"
      from perform_all_gone [OF this a3 g3 u3] show "unregistered ?e r4" by simp
    qed
    with r3 u3 show "\<exists>r3. Remove_runs ?N rid ?e r'' = Returns r3 \<and> unregistered ?e r3 \<and>
                    (\<forall>ops'' r4. perform_all ?N ops'' r3 = Returns r4 \<longrightarrow>
                       unregistered ?e r4)"
      by blast
  qed
  with c2 p2 show "calls_of ?e ?r2 = [(?z, True)] \<and> (rid, ?e) \<in> set (removes ?r2) \<and>
           (\<forall>ops' r''.
              perform_all ?N ops' ?r2 = Returns r'' \<longrightarrow>
              calls_of ?e r'' = [(?z, True)] \<and>
              ((rid, ?e) \<in> set (removes r'') \<longrightarrow>
                 (\<exists>r3. Remove_runs ?N rid ?e r'' = Returns r3 \<and> unregistered ?e r3 \<and>
                    (\<forall>ops'' r4. perform_all ?N ops'' r3 = Returns r4 \<longrightarrow>
                       unregistered ?e r4))))"
    by blast
qed

text \<open>
  C8.  The code does not do what the claim says when the timeout elapses
  before the registration.  \<open>AddRoundEvent\<close> starts the goroutine before it
  takes the lock, so with a short timeout the goroutine can take its
  timeout case, call the callback with \<open>timedOut = true\<close> and a round that
  carries the round id only, and the \<open>Remove\<close> it started can run, all
  before the object is put into the registry.  The registration then
  stores the object in the buckets of the states 3 and 4 of round 10, and
  no step of this subscription takes it out again: a further timeout step,
  \<open>Remove\<close> or receive changes nothing.  With the registration first the
  same steps leave nothing registered for round 10.
\<close>

theorem AddRoundEvent_timeout_before_registration:
  "invoked_after 7 [Start 10 [3, 4], Timeout 0, Cleanup 10 0, Register 10 [3, 4] 0] =
     Returns [(0, \<lparr>ID = 10, State = 0, Timestamps = []\<rparr>, True)] \<and>
   entry_after 7 [Start 10 [3, 4], Timeout 0, Cleanup 10 0, Register 10 [3, 4] 0] 10 =
     Returns (Some [[], [], [], [0], [0], [], []]) \<and>
   entry_after 7 [Start 10 [3, 4], Timeout 0, Cleanup 10 0, Register 10 [3, 4] 0,
                  Timeout 0, Cleanup 10 0, Receive 0] 10 =
     Returns (Some [[], [], [], [0], [0], [], []]) \<and>
   entry_after 7 [Start 10 [3, 4], Register 10 [3, 4] 0, Timeout 0, Cleanup 10 0] 10 =
     Returns None"
  by code_simp




end
